theory Spec2Isabelle
  imports Main
begin

section \<open>The C library as \<^verbatim>\<open>line_replacer.c\<close> uses it\<close>

text \<open>
  A file is a sequence of bytes. \<^verbatim>\<open>char\<close> buffers are byte lists; the C string held in
  a buffer is the run of bytes before its first NUL.
\<close>

definition NUL :: char where
  "NUL = CHR 0x00"

definition NL :: char where
  "NL = CHR 0x0A"

definition MAX_LINE_LENGTH :: nat where
  "MAX_LINE_LENGTH = 10000"

definition cstr :: "string \<Rightarrow> string" where
  "cstr b = takeWhile (\<lambda>c. c \<noteq> NUL) b"

definition strdup :: "string \<Rightarrow> string" where
  "strdup b = cstr b"

text \<open>
  \<^verbatim>\<open>fgets(buffer, size, file)\<close> stores at most \<open>size - 1\<close> bytes of the stream, stopping
  after a newline (which it stores) or at end of file, and returns NULL when the stream
  is already at its end. \<open>fgets_chars n s\<close> is the pair of the bytes stored and the rest
  of the stream.
\<close>

fun fgets_chars :: "nat \<Rightarrow> string \<Rightarrow> string \<times> string" where
  "fgets_chars 0 s = ([], s)"
| "fgets_chars (Suc n) [] = ([], [])"
| "fgets_chars (Suc n) (c # s) =
     (if c = NL then ([c], s)
      else (case fgets_chars n s of (b, r) \<Rightarrow> (c # b, r)))"

definition fgets :: "nat \<Rightarrow> string \<Rightarrow> (string \<times> string) option" where
  "fgets n s = (if s = [] then None else Some (fgets_chars (n - 1) s))"

text \<open>
  The file system maps a path to a file: its bytes and whether this process may open it
  for reading and for writing. \<^verbatim>\<open>fopen(path, "r")\<close> gives the stream of the file's bytes,
  \<^verbatim>\<open>fopen(path, "w")\<close> truncates the file (creating it when it is absent), \<^verbatim>\<open>fputs\<close>
  appends a C string to it. A C string is passed as its bytes before the terminating
  NUL: \<open>strdup\<close> and \<open>sprintf_line\<close> below produce strings of this kind, and these are
  the only strings the program writes.
\<close>

record disk_file =
  content :: string
  readable :: bool
  writable :: bool

type_synonym fs = "string \<Rightarrow> disk_file option"

definition fopen_r :: "fs \<Rightarrow> string \<Rightarrow> string option" where
  "fopen_r fs path =
     (case fs path of
        None \<Rightarrow> None
      | Some f \<Rightarrow> if readable f then Some (content f) else None)"

definition fopen_w :: "fs \<Rightarrow> string \<Rightarrow> fs option" where
  "fopen_w fs path =
     (case fs path of
        None \<Rightarrow> Some (fs(path \<mapsto> \<lparr>content = [], readable = True, writable = True\<rparr>))
      | Some f \<Rightarrow> if writable f then Some (fs(path \<mapsto> f\<lparr>content := []\<rparr>)) else None)"

definition fputs :: "string \<Rightarrow> string \<Rightarrow> fs \<Rightarrow> fs" where
  "fputs s path fs =
     (case fs path of
        None \<Rightarrow> fs
      | Some f \<Rightarrow> fs(path \<mapsto> f\<lparr>content := content f @ s\<rparr>))"

text \<open>
  \<^verbatim>\<open>atoi(s)\<close> is \<^verbatim>\<open>(int) strtol(s, NULL, 10)\<close>. \<^verbatim>\<open>strtol\<close> skips leading white space, reads
  an optional sign and then the longest run of decimal digits; no digit gives 0. Its result
  is a \<^verbatim>\<open>long\<close> of 64 bits: a value beyond that range is replaced by the nearest bound.
  The conversion to \<^verbatim>\<open>int\<close> keeps the low 32 bits, read in two's complement (ISO C leaves
  this case undefined; this is what the C library does).
\<close>

definition isspace :: "char \<Rightarrow> bool" where
  "isspace c = (c = CHR 0x20 \<or> (9 \<le> (of_char c :: nat) \<and> (of_char c :: nat) \<le> 13))"

definition isdigit :: "char \<Rightarrow> bool" where
  "isdigit c = (48 \<le> (of_char c :: nat) \<and> (of_char c :: nat) \<le> 57)"

fun digits_value :: "int \<Rightarrow> string \<Rightarrow> int" where
  "digits_value acc [] = acc"
| "digits_value acc (c # s) =
     (if isdigit c then digits_value (acc * 10 + (int (of_char c) - 48)) s else acc)"

definition strtol10 :: "string \<Rightarrow> int" where
  "strtol10 s =
     (case dropWhile isspace s of
        [] \<Rightarrow> 0
      | c # r \<Rightarrow>
          if c = CHR ''-'' then - digits_value 0 r
          else if c = CHR ''+'' then digits_value 0 r
          else digits_value 0 (c # r))"

definition strtol :: "string \<Rightarrow> int" where
  "strtol s =
     (let v = strtol10 s
      in if v < - (2 ^ 63) then - (2 ^ 63) else if 2 ^ 63 - 1 < v then 2 ^ 63 - 1 else v)"

definition int_of_long :: "int \<Rightarrow> int" where
  "int_of_long v = (v + 2 ^ 31) mod 2 ^ 32 - 2 ^ 31"

definition atoi :: "string \<Rightarrow> int" where
  "atoi s = int_of_long (strtol s)"

section \<open>\<^verbatim>\<open>replace_line\<close>\<close>

text \<open>
  The local variables of the read phase: the array \<^verbatim>\<open>lines\<close> of \<^verbatim>\<open>capacity\<close> pointers, of
  which the first \<^verbatim>\<open>num_lines\<close> are set. A slot that was never assigned holds no string
  (\<open>None\<close>); reading it, or a slot beyond the array, is undefined in C.
  \<^verbatim>\<open>capacity\<close> and \<^verbatim>\<open>num_lines\<close> are C \<^verbatim>\<open>int\<close>s; they are modelled as natural numbers, which is
  exact while the doubled capacity fits an \<^verbatim>\<open>int\<close> (up to \<open>100 * 2 ^ 24\<close> stored lines), and
  allocation is taken to succeed.
\<close>

record line_array =
  lines :: "string option list"
  num_lines :: nat
  capacity :: nat

definition malloc_lines :: "nat \<Rightarrow> string option list" where
  "malloc_lines cap = replicate cap None"

definition realloc_lines :: "string option list \<Rightarrow> nat \<Rightarrow> string option list" where
  "realloc_lines ls cap = take cap ls @ replicate (cap - length ls) None"

definition slot :: "string option list \<Rightarrow> nat \<Rightarrow> string option" where
  "slot ls i = (if i < length ls then ls ! i else None)"

definition store_line :: "string \<Rightarrow> line_array \<Rightarrow> line_array" where
  "store_line buffer a =
     (let a1 = (if num_lines a \<ge> capacity a
                then a\<lparr>capacity := capacity a * 2,
                       lines := realloc_lines (lines a) (capacity a * 2)\<rparr>
                else a);
          a2 = a1\<lparr>lines := (lines a1)[num_lines a1 := Some (strdup buffer)]\<rparr>
      in a2\<lparr>num_lines := num_lines a2 + 1\<rparr>)"

lemma fgets_chars_shorter:
  "fgets_chars (Suc n) (c # s) = (b, r) \<Longrightarrow> length r < length (c # s)"
proof (induction n arbitrary: c s b r)
  case 0
  then show ?case by (auto split: if_splits)
next
  case (Suc n)
  show ?case
  proof (cases s)
    case Nil
    with Suc.prems show ?thesis by (auto split: if_splits)
  next
    case (Cons d t)
    show ?thesis
    proof (cases "c = NL")
      case True
      with Suc.prems show ?thesis by auto
    next
      case False
      obtain b' r' where br: "fgets_chars (Suc n) (d # t) = (b', r')"
        by (cases "fgets_chars (Suc n) (d # t)") auto
      from Suc.IH [OF br] have "length r' < length (d # t)" .
      moreover from Suc.prems False Cons br have "r = r'" by auto
      ultimately show ?thesis using Cons by simp
    qed
  qed
qed

lemma fgets_shorter:
  "fgets MAX_LINE_LENGTH s = Some (b, r) \<Longrightarrow> length r < length s"
proof -
  assume a: "fgets MAX_LINE_LENGTH s = Some (b, r)"
  then obtain c t where s: "s = c # t"
    by (cases s) (auto simp: fgets_def)
  have "MAX_LINE_LENGTH - 1 = Suc 9998" by (simp add: MAX_LINE_LENGTH_def)
  with a s have "fgets_chars (Suc 9998) (c # t) = (b, r)"
    by (simp add: fgets_def)
  from fgets_chars_shorter [OF this] s show ?thesis by simp
qed

function read_loop :: "string \<Rightarrow> line_array \<Rightarrow> line_array" where
  "read_loop s a =
     (case fgets MAX_LINE_LENGTH s of
        None \<Rightarrow> a
      | Some (buffer, rest) \<Rightarrow> read_loop rest (store_line buffer a))"
  by pat_completeness auto
termination
  by (relation "measure (\<lambda>(s, a). length s)") (auto dest: fgets_shorter)

declare read_loop.simps [simp del]

definition read_phase :: "string \<Rightarrow> line_array" where
  "read_phase stream =
     read_loop stream \<lparr>lines = malloc_lines 100, num_lines = 0, capacity = 100\<rparr>"

definition total_lines :: "string \<Rightarrow> nat" where
  "total_lines stream = num_lines (read_phase stream)"

text \<open>
  The strings the read phase produces, one for each successful \<^verbatim>\<open>fgets\<close>, in the order
  of the stream: the loop without its array.
\<close>

function read_lines :: "string \<Rightarrow> string list" where
  "read_lines s =
     (case fgets MAX_LINE_LENGTH s of
        None \<Rightarrow> []
      | Some (buffer, rest) \<Rightarrow> strdup buffer # read_lines rest)"
  by pat_completeness auto
termination
  by (relation "measure length") (auto dest: fgets_shorter)

declare read_lines.simps [simp del]

text \<open>The write phase: \<^verbatim>\<open>for (i = 0; i < num_lines; i++) fputs(lines[i], file)\<close>.\<close>

function write_loop :: "string option list \<Rightarrow> nat \<Rightarrow> nat \<Rightarrow> string \<Rightarrow> fs \<Rightarrow> fs option" where
  "write_loop ls i n path fs =
     (if i < n
      then (case slot ls i of
              None \<Rightarrow> None
            | Some l \<Rightarrow> write_loop ls (i + 1) n path (fputs l path fs))
      else Some fs)"
  by pat_completeness auto
termination
  by (relation "measure (\<lambda>(ls, i, n, path, fs). n - i)") auto

declare write_loop.simps [simp del]

text \<open>
  What the process leaves behind: its return value, the diagnostics written to
  \<^verbatim>\<open>stderr\<close> (one constructor for each \<^verbatim>\<open>fprintf\<close> of the source, with its arguments) and
  the file system.
\<close>

datatype diag =
    CannotOpen string
  | OutOfRange int int
  | CannotWrite string
  | Usage

record outcome =
  status :: int
  stderr :: "diag list"
  files :: fs

definition sprintf_line :: "string \<Rightarrow> string" where
  "sprintf_line new_content = cstr new_content @ [NL]"

definition replace_line :: "fs \<Rightarrow> string \<Rightarrow> int \<Rightarrow> string \<Rightarrow> outcome option" where
  "replace_line fs filename line_num new_content =
     (case fopen_r fs filename of
        None \<Rightarrow> Some \<lparr>status = 1, stderr = [CannotOpen filename], files = fs\<rparr>
      | Some stream \<Rightarrow>
          let a = read_phase stream
          in if line_num > 0 \<and> line_num \<le> int (num_lines a)
             then
               let ls = (lines a)[nat (line_num - 1) := Some (sprintf_line new_content)]
               in (case fopen_w fs filename of
                     None \<Rightarrow> Some \<lparr>status = 1, stderr = [CannotWrite filename], files = fs\<rparr>
                   | Some fs1 \<Rightarrow>
                       (case write_loop ls 0 (num_lines a) filename fs1 of
                          None \<Rightarrow> None
                        | Some fs2 \<Rightarrow> Some \<lparr>status = 0, stderr = [], files = fs2\<rparr>))
             else Some \<lparr>status = 1,
                        stderr = [OutOfRange line_num (int (num_lines a))],
                        files = fs\<rparr>)"

text \<open>
  \<^verbatim>\<open>main\<close>: \<open>argv\<close> is the argument vector, \<^verbatim>\<open>argc\<close> its length. The usage message is
  one diagnostic, whatever the program name.
\<close>

definition main :: "fs \<Rightarrow> string list \<Rightarrow> outcome option" where
  "main fs argv =
     (if length argv \<noteq> 4
      then Some \<lparr>status = 1, stderr = [Usage], files = fs\<rparr>
      else replace_line fs (argv ! 1) (atoi (argv ! 2)) (argv ! 3))"

section \<open>Notions of the specification\<close>

text \<open>
  The spec's notion of a line: a maximal run of bytes ending in a newline, the last one
  possibly lacking it. \<open>spec_lines\<close> splits a file's bytes into these lines. The lines
  of a file fit when each of them, with its newline, is shorter than the \<^verbatim>\<open>fgets\<close> buffer.
  A file is well formed for the program when it is text (no NUL byte) and its lines fit.
\<close>

fun spec_lines :: "string \<Rightarrow> string list" where
  "spec_lines [] = []"
| "spec_lines (c # s) =
     (if c = NL then [c] # spec_lines s
      else (case spec_lines s of
              [] \<Rightarrow> [[c]]
            | l # ls \<Rightarrow> (c # l) # ls))"

definition lines_fit :: "string \<Rightarrow> bool" where
  "lines_fit s = list_all (\<lambda>l. length l < MAX_LINE_LENGTH) (spec_lines s)"

definition well_formed :: "string \<Rightarrow> bool" where
  "well_formed s =
     (NUL \<notin> set s \<and> list_all (\<lambda>l. length l < MAX_LINE_LENGTH) (spec_lines s))"

text \<open>
  Two readings of a \<^verbatim>\<open><line_number>\<close> argument. It is numeric when it is a decimal number:
  an optional sign and one or more digits, nothing else. It begins with a number when,
  after leading white space and an optional sign, a digit follows: this is when \<^verbatim>\<open>atoi\<close>
  converts anything at all.
\<close>

definition numeric :: "string \<Rightarrow> bool" where
  "numeric s =
     (case s of
        [] \<Rightarrow> False
      | c # r \<Rightarrow>
          if c = CHR ''-'' \<or> c = CHR ''+'' then r \<noteq> [] \<and> list_all isdigit r
          else list_all isdigit (c # r))"

definition begins_with_number :: "string \<Rightarrow> bool" where
  "begins_with_number s =
     (case dropWhile isspace s of
        [] \<Rightarrow> False
      | c # r \<Rightarrow>
          if c = CHR ''-'' \<or> c = CHR ''+''
          then (case r of [] \<Rightarrow> False | d # _ \<Rightarrow> isdigit d)
          else isdigit c)"

section \<open>Auxiliary notions for the proofs\<close>

text \<open>
  A string that \<^verbatim>\<open>fgets\<close> with room for \<open>n\<close> bytes reads back whole from the front of a
  stream, whatever follows it: it ends at its only newline and has at most \<open>n\<close> bytes, or
  it has no newline and exactly \<open>n\<close> bytes.
\<close>

definition full_chunk :: "nat \<Rightarrow> string \<Rightarrow> bool" where
  "full_chunk n b =
     ((b \<noteq> [] \<and> last b = NL \<and> NL \<notin> set (butlast b) \<and> length b \<le> n) \<or>
      (NL \<notin> set b \<and> length b = n))"

text \<open>
  The invariant of the read loop: the array has \<^verbatim>\<open>capacity\<close> slots, and its first
  \<^verbatim>\<open>num_lines\<close> slots hold the strings \<open>xs\<close> read so far, in order.
\<close>

definition arr_inv :: "line_array \<Rightarrow> string list \<Rightarrow> bool" where
  "arr_inv a xs =
     (num_lines a = length xs \<and> capacity a = length (lines a) \<and>
      num_lines a \<le> capacity a \<and> 0 < capacity a \<and>
      take (num_lines a) (lines a) = map Some xs)"

section \<open>The read phase stores every line once, in order\<close>

lemma arr_inv_init:
  "arr_inv \<lparr>lines = malloc_lines 100, num_lines = 0, capacity = 100\<rparr> []"
  by (simp add: arr_inv_def malloc_lines_def)

lemma arr_inv_store:
  assumes "arr_inv a xs"
  shows "arr_inv (store_line b a) (xs @ [strdup b])"
proof (cases "num_lines a \<ge> capacity a")
  case True
  with assms have eq: "num_lines a = length (lines a)" "capacity a = length (lines a)"
    and pos: "0 < length (lines a)" and all: "lines a = map Some xs"
    by (auto simp: arr_inv_def)
  let ?ls = "(lines a @ replicate (length (lines a)) None)[length (lines a) := Some (strdup b)]"
  have st: "store_line b a = a\<lparr>capacity := length (lines a) * 2, lines := ?ls,
      num_lines := length (lines a) + 1\<rparr>"
    using True eq by (simp add: store_line_def realloc_lines_def Let_def)
  have "take (length (lines a) + 1) ?ls = lines a @ [Some (strdup b)]"
    using pos by (cases "length (lines a)") (simp_all add: list_update_append)
  with st eq all pos show ?thesis
    by (cases xs) (simp_all add: arr_inv_def)
next
  case False
  with assms have lt: "num_lines a < length (lines a)" and cap: "capacity a = length (lines a)"
    and n: "num_lines a = length xs" and tk: "take (num_lines a) (lines a) = map Some xs"
    by (auto simp: arr_inv_def)
  have st: "store_line b a = a\<lparr>lines := (lines a)[num_lines a := Some (strdup b)],
      num_lines := num_lines a + 1\<rparr>"
    using False by (simp add: store_line_def Let_def)
  have "take (num_lines a + 1) ((lines a)[num_lines a := Some (strdup b)])
      = take (num_lines a) (lines a) @ [Some (strdup b)]"
    using lt by (simp add: take_Suc_conv_app_nth)
  moreover from lt have "lines a \<noteq> []" by auto
  ultimately show ?thesis using st lt cap n tk
    by (simp add: arr_inv_def)
qed

lemma arr_inv_read_loop:
  "arr_inv a xs \<Longrightarrow> arr_inv (read_loop s a) (xs @ read_lines s)"
proof (induction s a arbitrary: xs rule: read_loop.induct)
  case (1 s a)
  show ?case
  proof (cases "fgets MAX_LINE_LENGTH s")
    case None
    with "1.prems" show ?thesis
      by (simp add: read_loop.simps [of s] read_lines.simps [of s])
  next
    case (Some br)
    obtain b r where br: "br = (b, r)" by (cases br)
    from "1.IH" [OF Some br [symmetric] arr_inv_store [OF "1.prems"]]
    show ?thesis using Some br
      by (simp add: read_loop.simps [of s] read_lines.simps [of s])
  qed
qed

lemma read_phase_inv: "arr_inv (read_phase s) (read_lines s)"
  using arr_inv_read_loop [OF arr_inv_init, of s] by (simp add: read_phase_def)

section \<open>The write phase and the whole operation\<close>

lemma write_loop_concat:
  assumes "take n ls = map Some xs" and "n \<le> length ls" and "i \<le> n" and "fs path = Some f"
  shows "write_loop ls i n path fs =
    Some (fs(path \<mapsto> f\<lparr>content := content f @ concat (drop i xs)\<rparr>))"
  using assms
proof (induction ls i n path fs arbitrary: f rule: write_loop.induct)
  case (1 ls i n path fs)
  from "1.prems" have len: "length xs = n"
    by (metis length_map length_take min.absorb2)
  show ?case
  proof (cases "i < n")
    case False
    with "1.prems" len have "drop i xs = []" by simp
    moreover have "write_loop ls i n path fs = Some fs"
      using False by (subst write_loop.simps) simp
    moreover have "fs(path \<mapsto> f) = fs"
      using "1.prems"(4) by (rule map_upd_triv)
    ultimately show ?thesis by simp
  next
    case True
    have "ls ! i = take n ls ! i" using True by simp
    also have "\<dots> = Some (xs ! i)" using "1.prems"(1) True len by simp
    finally have sl: "slot ls i = Some (xs ! i)"
      using True "1.prems"(2) by (simp add: slot_def)
    let ?f = "f\<lparr>content := content f @ xs ! i\<rparr>"
    have fp: "fputs (xs ! i) path fs = fs(path \<mapsto> ?f)"
      using "1.prems"(4) by (simp add: fputs_def)
    have step: "write_loop ls i n path fs =
      write_loop ls (i + 1) n path (fs(path \<mapsto> ?f))"
      using True sl fp by (subst write_loop.simps) simp
    have "write_loop ls (i + 1) n path (fputs (xs ! i) path fs) =
      Some ((fputs (xs ! i) path fs)(path \<mapsto>
        ?f\<lparr>content := content ?f @ concat (drop (i + 1) xs)\<rparr>))"
    proof (rule "1.IH" [OF True sl])
      show "take n ls = map Some xs" by fact
      show "n \<le> length ls" by fact
      show "i + 1 \<le> n" using True by simp
      show "fputs (xs ! i) path fs path = Some ?f" by (simp add: fp)
    qed
    then have rec: "write_loop ls (i + 1) n path (fs(path \<mapsto> ?f)) =
      Some ((fs(path \<mapsto> ?f))(path \<mapsto> ?f\<lparr>content := content ?f @ concat (drop (i + 1) xs)\<rparr>))"
      unfolding fp .
    have dr: "drop i xs = xs ! i # drop (i + 1) xs"
      using True len by (simp add: Cons_nth_drop_Suc)
    have "(fs(path \<mapsto> ?f))(path \<mapsto> ?f\<lparr>content := content ?f @ concat (drop (i + 1) xs)\<rparr>) =
      fs(path \<mapsto> f\<lparr>content := content f @ concat (drop i xs)\<rparr>)"
      by (simp add: dr)
    with step rec show ?thesis by (simp only:)
  qed
qed

lemma replace_line_unreadable:
  "fopen_r fs filename = None \<Longrightarrow>
   replace_line fs filename k c = Some \<lparr>status = 1, stderr = [CannotOpen filename], files = fs\<rparr>"
  by (simp add: replace_line_def)

lemma total_lines_eq: "total_lines s = length (read_lines s)"
  using read_phase_inv [of s] by (simp add: total_lines_def arr_inv_def)

lemma replace_line_range:
  assumes "fs filename = Some f" and "readable f"
    and "\<not> (0 < k \<and> k \<le> int (length (read_lines (content f))))"
  shows "replace_line fs filename k c =
    Some \<lparr>status = 1, stderr = [OutOfRange k (int (length (read_lines (content f))))], files = fs\<rparr>"
proof -
  have "num_lines (read_phase (content f)) = length (read_lines (content f))"
    using read_phase_inv [of "content f"] by (simp add: arr_inv_def)
  with assms show ?thesis
    by (auto simp: replace_line_def fopen_r_def Let_def)
qed

lemma replace_line_unwritable:
  assumes "fs filename = Some f" and "readable f" and "\<not> writable f"
    and "0 < k" and "k \<le> int (length (read_lines (content f)))"
  shows "replace_line fs filename k c =
    Some \<lparr>status = 1, stderr = [CannotWrite filename], files = fs\<rparr>"
proof -
  have "num_lines (read_phase (content f)) = length (read_lines (content f))"
    using read_phase_inv [of "content f"] by (simp add: arr_inv_def)
  with assms show ?thesis
    by (simp add: replace_line_def fopen_r_def fopen_w_def Let_def)
qed

lemma replace_line_written:
  assumes "fs filename = Some f" and "readable f" and "writable f"
    and "0 < k" and "k \<le> int (length (read_lines (content f)))"
  shows "replace_line fs filename k c =
    Some \<lparr>status = 0, stderr = [],
      files = fs(filename \<mapsto>
        f\<lparr>content := concat ((read_lines (content f))[nat (k - 1) := cstr c @ [NL]])\<rparr>)\<rparr>"
proof -
  let ?a = "read_phase (content f)"
  let ?xs = "read_lines (content f)"
  let ?ls = "(lines ?a)[nat (k - 1) := Some (sprintf_line c)]"
  let ?fs1 = "fs(filename \<mapsto> f\<lparr>content := []\<rparr>)"
  have inv: "arr_inv ?a ?xs" by (rule read_phase_inv)
  then have n: "num_lines ?a = length ?xs"
    unfolding arr_inv_def by blast
  from inv have le: "num_lines ?a \<le> length (lines ?a)"
    unfolding arr_inv_def by linarith
  from inv have tk: "take (num_lines ?a) (lines ?a) = map Some ?xs"
    unfolding arr_inv_def by blast
  have "take (num_lines ?a) ?ls = (take (num_lines ?a) (lines ?a))[nat (k - 1) := Some (sprintf_line c)]"
    by (simp add: take_update_swap)
  also have "\<dots> = map Some (?xs[nat (k - 1) := sprintf_line c])"
    using tk by (simp add: map_update)
  finally have tk': "take (num_lines ?a) ?ls = map Some (?xs[nat (k - 1) := sprintf_line c])" .
  have "write_loop ?ls 0 (num_lines ?a) filename ?fs1 =
    Some (?fs1(filename \<mapsto> (f\<lparr>content := []\<rparr>)\<lparr>content := content (f\<lparr>content := []\<rparr>) @
      concat (drop 0 (?xs[nat (k - 1) := sprintf_line c]))\<rparr>))"
    using le by (intro write_loop_concat [OF tk']) simp_all
  then have wl: "write_loop ?ls 0 (num_lines ?a) filename ?fs1 =
    Some (fs(filename \<mapsto> f\<lparr>content := concat (?xs[nat (k - 1) := sprintf_line c])\<rparr>))"
    by simp
  show ?thesis
    using assms n wl
    by (simp add: replace_line_def fopen_r_def fopen_w_def Let_def sprintf_line_def)
qed

lemma read_lines_Nil: "read_lines [] = []"
  by (simp add: read_lines.simps fgets_def)

section \<open>Lines as read and lines as the spec defines them\<close>

lemma fgets_chars_Nil: "fgets_chars n [] = ([], [])"
  by (cases n) simp_all

lemma fgets_chars_append: "fgets_chars n s = (b, r) \<Longrightarrow> b @ r = s"
proof (induction n s arbitrary: b r rule: fgets_chars.induct)
  case (3 n c s)
  then show ?case
    by (cases "fgets_chars n s") (auto split: if_splits)
qed auto

lemma strdup_text: "NUL \<notin> set b \<Longrightarrow> strdup b = b"
  by (auto simp: strdup_def cstr_def takeWhile_eq_all_conv)

lemma cstr_text: "NUL \<notin> set b \<Longrightarrow> cstr b = b"
  by (auto simp: cstr_def takeWhile_eq_all_conv)

lemma cstr_no_NUL: "NUL \<notin> set (cstr b)"
  by (auto simp: cstr_def dest: set_takeWhileD)

lemma concat_read_lines: "NUL \<notin> set s \<Longrightarrow> concat (read_lines s) = s"
proof (induction s rule: read_lines.induct)
  case (1 s)
  show ?case
  proof (cases "fgets MAX_LINE_LENGTH s")
    case None
    then have "s = []" by (simp add: fgets_def split: if_splits)
    then show ?thesis by (simp add: read_lines_Nil)
  next
    case (Some br)
    obtain b r where br: "br = (b, r)" by (cases br)
    with Some have "fgets_chars (MAX_LINE_LENGTH - 1) s = (b, r)"
      by (simp add: fgets_def split: if_splits)
    then have s: "b @ r = s" by (rule fgets_chars_append)
    with "1.prems" have nb: "NUL \<notin> set b" and nr: "NUL \<notin> set r" by auto
    from "1.IH" [OF Some br [symmetric] nr] have "concat (read_lines r) = r" .
    with Some br nb s show ?thesis
      by (simp add: read_lines.simps [of s] strdup_text)
  qed
qed

lemma spec_lines_Nil_iff: "spec_lines s = [] \<longleftrightarrow> s = []"
  by (cases s) (auto split: list.splits)

lemma concat_spec_lines: "concat (spec_lines s) = s"
  by (induction s) (auto split: list.splits)

lemma spec_lines_nonempty: "[] \<notin> set (spec_lines s)"
  by (induction s) (auto split: list.splits)

lemma spec_lines_inner: "l \<in> set (spec_lines s) \<Longrightarrow> NL \<notin> set (butlast l)"
proof (induction s arbitrary: l)
  case Nil
  then show ?case by simp
next
  case (Cons c s)
  show ?case
  proof (cases "c = NL")
    case True
    with Cons show ?thesis by auto
  next
    case False
    show ?thesis
    proof (cases "spec_lines s")
      case Nil
      with Cons.prems False show ?thesis by simp
    next
      case (Cons l' ls)
      with Cons.IH have "NL \<notin> set (butlast l')" and rest: "\<And>x. x \<in> set ls \<Longrightarrow> NL \<notin> set (butlast x)"
        by auto
      with Cons.prems False Cons show ?thesis by (auto split: if_splits)
    qed
  qed
qed

lemma spec_lines_terminated:
  "l \<in> set (butlast (spec_lines s)) \<Longrightarrow> last l = NL"
proof (induction s arbitrary: l)
  case Nil
  then show ?case by simp
next
  case (Cons c s)
  show ?case
  proof (cases "spec_lines s")
    case Nil
    with Cons.prems show ?thesis by (auto split: if_splits)
  next
    case (Cons l' ls)
    have ne: "l' \<noteq> []" using spec_lines_nonempty [of s] Cons by auto
    show ?thesis
    proof (cases "c = NL")
      case True
      with Cons.prems Cons.IH Cons show ?thesis by (auto split: if_splits)
    next
      case False
      with Cons.prems Cons.IH Cons ne show ?thesis by (auto split: if_splits)
    qed
  qed
qed

lemma fgets_chars_spec_line:
  "spec_lines s = l # ls \<Longrightarrow> length l \<le> n \<Longrightarrow>
   \<exists>r. fgets_chars n s = (l, r) \<and> spec_lines r = ls"
proof (induction s arbitrary: n l ls)
  case Nil
  then show ?case by simp
next
  case (Cons c s)
  have "l \<noteq> []" using spec_lines_nonempty [of "c # s"] Cons.prems(1) by auto
  with Cons.prems(2) obtain m where n: "n = Suc m" by (cases n) auto
  show ?case
  proof (cases "c = NL")
    case True
    with Cons.prems n show ?thesis by auto
  next
    case False
    show ?thesis
    proof (cases "spec_lines s")
      case Nil
      then have "s = []" by (simp add: spec_lines_Nil_iff)
      with Cons.prems False n show ?thesis by (auto simp: fgets_chars_Nil)
    next
      case (Cons l' ls')
      with Cons.prems False n have l: "l = c # l'" and ls: "ls = ls'" and len: "length l' \<le> m"
        by auto
      from Cons.IH [OF Cons len] obtain r where "fgets_chars m s = (l', r)" "spec_lines r = ls'"
        by blast
      with False n l ls show ?thesis by simp
    qed
  qed
qed

lemma read_lines_well_formed:
  "well_formed s \<Longrightarrow> read_lines s = spec_lines s"
proof (induction "spec_lines s" arbitrary: s)
  case Nil
  from Nil(1) [symmetric] have "s = []" by (simp add: spec_lines_Nil_iff)
  then show ?case by (simp add: read_lines_Nil)
next
  case (Cons l ls)
  from Cons.hyps(2) [symmetric] Cons.prems
  have len: "length l \<le> MAX_LINE_LENGTH - 1" and nul: "NUL \<notin> set s"
    and rest: "list_all (\<lambda>l. length l < MAX_LINE_LENGTH) ls"
    by (auto simp: well_formed_def)
  from fgets_chars_spec_line [OF Cons.hyps(2) [symmetric] len]
  obtain r where f: "fgets_chars (MAX_LINE_LENGTH - 1) s = (l, r)" and r: "spec_lines r = ls"
    by blast
  from fgets_chars_append [OF f] nul have nl: "NUL \<notin> set l" and nr: "NUL \<notin> set r" by auto
  from r rest nr have "well_formed r" by (simp add: well_formed_def)
  with Cons.hyps(1) [of r] r have "read_lines r = ls" by simp
  moreover have "s \<noteq> []" using Cons.hyps(2) by auto
  ultimately show ?case using f nl Cons.hyps(2)
    by (simp add: read_lines.simps [of s] fgets_def strdup_text)
qed

lemma spec_lines_append_line:
  "l \<noteq> [] \<Longrightarrow> last l = NL \<Longrightarrow> NL \<notin> set (butlast l) \<Longrightarrow>
   spec_lines (l @ r) = l # spec_lines r"
proof (induction l)
  case Nil
  then show ?case by simp
next
  case (Cons c l)
  show ?case
  proof (cases "l = []")
    case True
    with Cons.prems show ?thesis by simp
  next
    case False
    with Cons.prems have "c \<noteq> NL" "last l = NL" "NL \<notin> set (butlast l)" by auto
    with Cons.IH False show ?thesis by simp
  qed
qed

lemma spec_lines_single:
  "l \<noteq> [] \<Longrightarrow> NL \<notin> set (butlast l) \<Longrightarrow> spec_lines l = [l]"
proof (induction l)
  case Nil
  then show ?case by simp
next
  case (Cons c l)
  show ?case
  proof (cases "l = []")
    case True
    then show ?thesis by simp
  next
    case False
    with Cons.prems have "c \<noteq> NL" "NL \<notin> set (butlast l)" by auto
    with Cons.IH False show ?thesis by simp
  qed
qed

lemma spec_lines_concat:
  assumes "\<And>l. l \<in> set ls \<Longrightarrow> l \<noteq> [] \<and> NL \<notin> set (butlast l)"
    and "\<And>l. l \<in> set (butlast ls) \<Longrightarrow> last l = NL"
  shows "spec_lines (concat ls) = ls"
  using assms
proof (induction ls)
  case Nil
  then show ?case by simp
next
  case (Cons l ls)
  show ?case
  proof (cases "ls = []")
    case True
    with Cons.prems(1) [of l] show ?thesis by (simp add: spec_lines_single)
  next
    case False
    with Cons.prems have l: "l \<noteq> []" "last l = NL" "NL \<notin> set (butlast l)" by auto
    have "spec_lines (concat ls) = ls"
      using Cons.prems False by (intro Cons.IH) auto
    with l show ?thesis by (simp add: spec_lines_append_line)
  qed
qed

lemma read_lines_nonempty: "s \<noteq> [] \<Longrightarrow> read_lines s \<noteq> []"
  by (cases "fgets_chars (MAX_LINE_LENGTH - 1) s") (simp add: read_lines.simps [of s] fgets_def)

lemma update_last: "ls \<noteq> [] \<Longrightarrow> ls[length ls - 1 := x] = butlast ls @ [x]"
  by (induction ls rule: rev_induct) simp_all

lemma concat_update:
  "i < length ls \<Longrightarrow> concat (ls[i := x]) = concat (take i ls) @ x @ concat (drop (Suc i) ls)"
  by (simp add: upd_conv_take_nth_drop)

lemma fgets_chars_replicate:
  "c \<noteq> NL \<Longrightarrow> fgets_chars n (replicate n c @ r) = (replicate n c, r)"
  by (induction n) simp_all

lemma fgets_long:
  "c \<noteq> NL \<Longrightarrow> fgets MAX_LINE_LENGTH (replicate 9999 c @ r) = Some (replicate 9999 c, r)"
proof -
  assume "c \<noteq> NL"
  then have "fgets_chars 9999 (replicate 9999 c @ r) = (replicate 9999 c, r)"
    by (rule fgets_chars_replicate)
  moreover have "replicate 9999 c @ r \<noteq> []" by simp
  ultimately show ?thesis by (simp add: fgets_def MAX_LINE_LENGTH_def)
qed

lemma read_lines_long:
  assumes "c \<noteq> NL" and "c \<noteq> NUL"
  shows "read_lines (replicate 9999 c @ r) = replicate 9999 c # read_lines r"
proof -
  have "strdup (replicate 9999 c) = replicate 9999 c"
    using assms(2) by (intro strdup_text) auto
  with fgets_long [OF assms(1), of r] show ?thesis
    by (simp add: read_lines.simps [of "replicate 9999 c @ r"])
qed

lemma read_lines_short:
  assumes "s \<noteq> []" and "NUL \<notin> set s" and "NL \<notin> set (butlast s)"
    and "length s < MAX_LINE_LENGTH"
  shows "read_lines s = [s]"
proof -
  from assms have "well_formed s"
    by (simp add: well_formed_def spec_lines_single)
  with assms show ?thesis
    by (simp add: read_lines_well_formed spec_lines_single)
qed

lemma spec_lines_replicate:
  "c \<noteq> NL \<Longrightarrow> 0 < n \<Longrightarrow> spec_lines (replicate n c) = [replicate n c]"
  by (intro spec_lines_single) (auto dest: in_set_butlastD)

lemma read_phase_num: "num_lines (read_phase s) = length (read_lines s)"
  using read_phase_inv [of s] unfolding arr_inv_def by blast

lemma read_phase_capacity:
  "capacity (read_phase s) = length (lines (read_phase s))"
  "num_lines (read_phase s) \<le> capacity (read_phase s)"
  using read_phase_inv [of s] unfolding arr_inv_def by blast+

lemma read_phase_take:
  "take (length (read_lines s)) (lines (read_phase s)) = map Some (read_lines s)"
  using read_phase_inv [of s] unfolding arr_inv_def by metis

lemma read_phase_slot:
  assumes "i < length (read_lines s)"
  shows "slot (lines (read_phase s)) i = Some (read_lines s ! i)"
proof -
  have "lines (read_phase s) ! i = take (length (read_lines s)) (lines (read_phase s)) ! i"
    using assms by simp
  also have "\<dots> = Some (read_lines s ! i)"
    using assms by (simp add: read_phase_take)
  finally show ?thesis
    using assms read_phase_num [of s] read_phase_capacity [of s] by (simp add: slot_def)
qed

lemma replicate_10000: "replicate 10000 c = replicate 9999 c @ [c]"
proof -
  have "replicate (Suc 9999) c = replicate 9999 c @ [c]"
    by (simp only: replicate_Suc replicate_append_same)
  then show ?thesis by simp
qed

section \<open>Reading back what was written\<close>

lemma fgets_chars_full:
  "fgets_chars n s = (b, r) \<Longrightarrow> r \<noteq> [] \<Longrightarrow> full_chunk n b"
proof (induction n s arbitrary: b r rule: fgets_chars.induct)
  case (1 s)
  then show ?case by (simp add: full_chunk_def)
next
  case (2 n)
  then show ?case by simp
next
  case (3 n c s)
  show ?case
  proof (cases "c = NL")
    case True
    with "3.prems" show ?thesis by (auto simp: full_chunk_def)
  next
    case False
    obtain b' r' where f: "fgets_chars n s = (b', r')" by (cases "fgets_chars n s")
    with "3.prems" False have b: "b = c # b'" and r: "r' = r" by auto
    from "3.IH" [OF False f] r "3.prems"(2) have "full_chunk n b'" by simp
    with False b show ?thesis by (auto simp: full_chunk_def)
  qed
qed

lemma fgets_chars_read_back:
  "full_chunk n b \<Longrightarrow> fgets_chars n (b @ r) = (b, r)"
proof (induction n arbitrary: b)
  case 0
  then show ?case by (auto simp: full_chunk_def)
next
  case (Suc n)
  then obtain c b' where b: "b = c # b'"
    by (cases b) (auto simp: full_chunk_def)
  show ?case
  proof (cases "c = NL")
    case True
    with Suc.prems b have "b' = []"
      by (auto simp: full_chunk_def split: if_splits)
    with True b show ?thesis by simp
  next
    case False
    with Suc.prems b have "full_chunk n b'"
      by (auto simp: full_chunk_def split: if_splits)
    from Suc.IH [OF this] False b show ?thesis by simp
  qed
qed

lemma read_lines_read_back:
  assumes "full_chunk (MAX_LINE_LENGTH - 1) l" and "NUL \<notin> set l"
  shows "read_lines (l @ r) = l # read_lines r"
proof -
  from assms(1) have "l \<noteq> []" by (auto simp: full_chunk_def MAX_LINE_LENGTH_def)
  then have "fgets MAX_LINE_LENGTH (l @ r) = Some (l, r)"
    using fgets_chars_read_back [OF assms(1), of r] by (simp add: fgets_def)
  with assms(2) show ?thesis
    by (simp add: read_lines.simps [of "l @ r"] strdup_text)
qed

lemma read_lines_concat_read_back:
  assumes "\<And>l. l \<in> set pre \<Longrightarrow> full_chunk (MAX_LINE_LENGTH - 1) l \<and> NUL \<notin> set l"
  shows "read_lines (concat pre @ r) = pre @ read_lines r"
  using assms by (induction pre) (simp_all add: read_lines_read_back)

lemma read_lines_full:
  "NUL \<notin> set s \<Longrightarrow> l \<in> set (butlast (read_lines s)) \<Longrightarrow>
   full_chunk (MAX_LINE_LENGTH - 1) l \<and> NUL \<notin> set l"
proof (induction s rule: read_lines.induct)
  case (1 s)
  show ?case
  proof (cases "fgets MAX_LINE_LENGTH s")
    case None
    with "1.prems" show ?thesis by (simp add: read_lines.simps [of s])
  next
    case (Some br)
    obtain b r where br: "br = (b, r)" by (cases br)
    with Some have f: "fgets_chars (MAX_LINE_LENGTH - 1) s = (b, r)"
      by (simp add: fgets_def split: if_splits)
    from fgets_chars_append [OF f] "1.prems"(1)
    have nb: "NUL \<notin> set b" and nr: "NUL \<notin> set r" by auto
    have rl: "read_lines s = b # read_lines r"
      using Some br nb by (simp add: read_lines.simps [of s] strdup_text)
    show ?thesis
    proof (cases "read_lines r = []")
      case True
      with rl "1.prems"(2) show ?thesis by simp
    next
      case False
      then have "r \<noteq> []" by (auto simp: read_lines_Nil)
      with f have "full_chunk (MAX_LINE_LENGTH - 1) b" by (rule fgets_chars_full)
      moreover from rl False "1.prems"(2)
      have "l = b \<or> l \<in> set (butlast (read_lines r))" by simp
      ultimately show ?thesis
        using nb "1.IH" [OF Some br [symmetric] nr] by auto
    qed
  qed
qed

lemma read_lines_no_NUL: "l \<in> set (read_lines s) \<Longrightarrow> NUL \<notin> set l"
proof (induction s rule: read_lines.induct)
  case (1 s)
  show ?case
  proof (cases "fgets MAX_LINE_LENGTH s")
    case None
    with "1.prems" show ?thesis by (simp add: read_lines.simps [of s])
  next
    case (Some br)
    obtain b r where br: "br = (b, r)" by (cases br)
    with Some "1.prems" have "l = strdup b \<or> l \<in> set (read_lines r)"
      by (simp add: read_lines.simps [of s])
    with "1.IH" [OF Some br [symmetric]] show ?thesis
      by (auto simp: strdup_def cstr_no_NUL)
  qed
qed

lemma replace_line_text:
  assumes "well_formed s" and "NUL \<notin> set c"
    and "0 < k" and "k \<le> int (length (spec_lines s))"
  shows "replace_line [p \<mapsto> \<lparr>content = s, readable = True, writable = True\<rparr>] p k c =
    Some \<lparr>status = 0, stderr = [],
      files = [p \<mapsto> \<lparr>content = concat ((spec_lines s)[nat (k - 1) := c @ [NL]]),
        readable = True, writable = True\<rparr>]\<rparr>"
  using replace_line_written
    [of "[p \<mapsto> \<lparr>content = s, readable = True, writable = True\<rparr>]" p
      "\<lparr>content = s, readable = True, writable = True\<rparr>" k c] assms
  by (simp add: read_lines_well_formed cstr_text)

lemma replace_line_again:
  assumes f: "fs path = Some f" "readable f" "writable f"
    and nul: "NUL \<notin> set (content f)"
    and c: "NL \<notin> set c" "NUL \<notin> set c" "length c < MAX_LINE_LENGTH - 1"
    and k: "0 < k" "k \<le> int (length (read_lines (content f)))"
  defines "f' \<equiv> f\<lparr>content := concat ((read_lines (content f))[nat (k - 1) := c @ [NL]])\<rparr>"
  shows "replace_line (fs(path \<mapsto> f')) path k c =
    Some \<lparr>status = 0, stderr = [], files = fs(path \<mapsto> f')\<rparr>"
proof -
  let ?ls = "read_lines (content f)"
  let ?n = "nat (k - 1)"
  let ?x = "c @ [NL]"
  let ?rest = "concat (drop (Suc ?n) ?ls)"
  have n: "?n < length ?ls" using k by auto
  have F1: "content f' = concat (take ?n ?ls @ [?x]) @ ?rest"
    using concat_update [OF n, of ?x] by (simp add: f'_def)
  have pre: "full_chunk (MAX_LINE_LENGTH - 1) l \<and> NUL \<notin> set l"
    if "l \<in> set (take ?n ?ls @ [?x])" for l
  proof (cases "l = ?x")
    case True
    with c show ?thesis by (auto simp: full_chunk_def NUL_def NL_def)
  next
    case False
    with that have "l \<in> set (take ?n ?ls)" by simp
    moreover have "take ?n ?ls = take ?n (butlast ?ls)"
      using n by (simp add: butlast_conv_take min_def)
    ultimately have "l \<in> set (butlast ?ls)" by (auto dest: in_set_takeD)
    with nul show ?thesis by (rule read_lines_full)
  qed
  have ls2: "read_lines (content f') = (take ?n ?ls @ [?x]) @ read_lines ?rest"
    unfolding F1 using pre by (rule read_lines_concat_read_back)
  have len: "length (take ?n ?ls) = ?n" using n by simp
  have nth: "read_lines (content f') ! ?n = ?x"
    unfolding ls2 using len by (simp add: nth_append)
  have k2: "k \<le> int (length (read_lines (content f')))"
    unfolding ls2 using n k by simp
  have "NUL \<notin> set ?rest"
    using read_lines_no_NUL [of _ "content f"] by (auto dest: in_set_dropD)
  then have cr: "concat (read_lines ?rest) = ?rest" by (rule concat_read_lines)
  have "concat (read_lines (content f')) = concat ((take ?n ?ls @ [?x]) @ read_lines ?rest)"
    by (simp only: ls2)
  also have "\<dots> = concat (take ?n ?ls @ [?x]) @ ?rest"
    using cr by simp
  finally have cc: "concat (read_lines (content f')) = content f'"
    by (simp only: F1)
  have same: "(read_lines (content f'))[?n := ?x] = read_lines (content f')"
    using nth by (metis list_update_id)
  have "f'\<lparr>content := concat ((read_lines (content f'))[?n := cstr c @ [NL]])\<rparr> = f'"
    using cc same c(2) by (simp add: cstr_text)
  moreover have "(fs(path \<mapsto> f')) path = Some f'" "readable f'" "writable f'"
    using f by (simp_all add: f'_def)
  ultimately show ?thesis
    using replace_line_written [of "fs(path \<mapsto> f')" path f' k c] k(1) k2 by simp
qed

section \<open>The command line\<close>

lemma strtol10_no_number:
  assumes "\<not> begins_with_number s"
  shows "strtol10 s = 0"
proof (cases "dropWhile isspace s")
  case Nil
  show ?thesis unfolding strtol10_def Nil by simp
next
  case (Cons c r)
  from assms have b: "\<not> (if c = CHR ''-'' \<or> c = CHR ''+''
      then (case r of [] \<Rightarrow> False | d # _ \<Rightarrow> isdigit d) else isdigit c)"
    unfolding begins_with_number_def Cons by simp
  show ?thesis
  proof (cases "c = CHR ''-'' \<or> c = CHR ''+''")
    case True
    with b have "digits_value 0 r = 0" by (cases r) simp_all
    with True show ?thesis unfolding strtol10_def Cons by auto
  next
    case False
    with b have "\<not> isdigit c" by simp
    with False show ?thesis unfolding strtol10_def Cons by simp
  qed
qed

lemma atoi_no_number: "\<not> begins_with_number s \<Longrightarrow> atoi s = 0"
  by (simp add: atoi_def strtol_def int_of_long_def strtol10_no_number)

lemma main_replace_line:
  "main fs [prog, path, arg, c] = replace_line fs path (atoi arg) c"
  by (simp add: main_def)

lemma fopen_r_Some:
  "fopen_r fs path = Some s \<longleftrightarrow> (\<exists>f. fs path = Some f \<and> readable f \<and> s = content f)"
  by (auto simp: fopen_r_def split: option.splits)

lemma fopen_r_None:
  "fopen_r fs path = None \<longleftrightarrow> (\<forall>f. fs path = Some f \<longrightarrow> \<not> readable f)"
  by (auto simp: fopen_r_def split: option.splits)

lemma fopen_w_None:
  "fopen_w fs path = None \<longleftrightarrow> (\<exists>f. fs path = Some f \<and> \<not> writable f)"
  by (auto simp: fopen_w_def split: option.splits)

lemma digit_not_space: "isdigit c \<Longrightarrow> \<not> isspace c"
  by (auto simp: isdigit_def isspace_def)

lemma numeric_begins_with_number: "numeric s \<Longrightarrow> begins_with_number s"
proof (cases s)
  case Nil
  assume "numeric s"
  with Nil show ?thesis by (simp add: numeric_def)
next
  case (Cons c r)
  assume n: "numeric s"
  show ?thesis
  proof (cases "c = CHR ''-'' \<or> c = CHR ''+''")
    case True
    then have "\<not> isspace c" by (auto simp: isspace_def)
    with Cons have d: "dropWhile isspace s = c # r" by simp
    from n Cons True obtain e t where "r = e # t" "isdigit e"
      by (cases r) (auto simp: numeric_def)
    with True show ?thesis unfolding begins_with_number_def d by auto
  next
    case False
    with n Cons have "isdigit c" by (simp add: numeric_def)
    moreover from this have "\<not> isspace c" by (rule digit_not_space)
    with Cons have "dropWhile isspace s = c # r" by simp
    ultimately show ?thesis using False unfolding begins_with_number_def by simp
  qed
qed

lemma replace_line_outcome:
  "\<exists>out. replace_line fs path n c = Some out \<and>
    (status out = 0 \<or> status out = 1) \<and>
    (status out = 1 \<longleftrightarrow>
       fopen_r fs path = None \<or>
       (\<exists>s. fopen_r fs path = Some s \<and> (n < 1 \<or> n > int (total_lines s))) \<or>
       fopen_w fs path = None) \<and>
    (status out = 1 \<longrightarrow> files out = fs \<and> stderr out \<noteq> []) \<and>
    (status out = 0 \<longrightarrow> stderr out = [] \<and>
       (\<exists>f. fs path = Some f \<and>
          files out = fs(path \<mapsto> f\<lparr>content :=
            concat ((read_lines (content f))[nat (n - 1) := cstr c @ [NL]])\<rparr>)))"
proof (cases "fopen_r fs path")
  case None
  with replace_line_unreadable [OF None, of n c] show ?thesis by simp
next
  case (Some s)
  then obtain f where f: "fs path = Some f" "readable f" "s = content f"
    by (auto simp: fopen_r_Some)
  show ?thesis
  proof (cases "0 < n \<and> n \<le> int (length (read_lines (content f)))")
    case False
    with replace_line_range [of fs path f n c] f Some show ?thesis
      by (auto simp: total_lines_eq)
  next
    case range: True
    show ?thesis
    proof (cases "writable f")
      case False
      with f have "fopen_w fs path = None" by (auto simp: fopen_w_None)
      with replace_line_unwritable [of fs path f n c] f False range show ?thesis
        by simp
    next
      case True
      with f have "fopen_w fs path \<noteq> None" by (auto simp: fopen_w_None)
      with replace_line_written [of fs path f n c] f True range Some show ?thesis
        by (auto simp: total_lines_eq)
    qed
  qed
qed

lemma spec_lines_newlines: "spec_lines (replicate n NL) = replicate n [NL]"
  by (induction n) simp_all

lemma well_formed_newlines: "well_formed (replicate n NL)"
proof -
  have "NUL \<noteq> NL" by (simp add: NUL_def NL_def)
  then have "NUL \<notin> set (replicate n NL)" by auto
  moreover have "list_all (\<lambda>l. length l < MAX_LINE_LENGTH) (replicate n [NL])"
    by (auto simp: list_all_iff MAX_LINE_LENGTH_def)
  ultimately show ?thesis by (simp add: well_formed_def spec_lines_newlines)
qed

section \<open>Files whose lines fit the buffer\<close>

lemma well_formed_fit: "well_formed s \<Longrightarrow> lines_fit s"
  by (simp add: well_formed_def lines_fit_def)

lemma read_lines_fit:
  "lines_fit s \<Longrightarrow> read_lines s = map strdup (spec_lines s)"
proof (induction "spec_lines s" arbitrary: s)
  case Nil
  from Nil(1) [symmetric] have "s = []" by (simp add: spec_lines_Nil_iff)
  then show ?case by (simp add: read_lines_Nil)
next
  case (Cons l ls)
  from Cons.hyps(2) [symmetric] Cons.prems
  have len: "length l \<le> MAX_LINE_LENGTH - 1"
    and rest: "list_all (\<lambda>l. length l < MAX_LINE_LENGTH) ls"
    by (auto simp: lines_fit_def)
  from fgets_chars_spec_line [OF Cons.hyps(2) [symmetric] len]
  obtain r where f: "fgets_chars (MAX_LINE_LENGTH - 1) s = (l, r)" and r: "spec_lines r = ls"
    by blast
  from r rest have "lines_fit r" by (simp add: lines_fit_def)
  with Cons.hyps(1) [of r] r have "read_lines r = map strdup ls" by simp
  moreover have "s \<noteq> []" using Cons.hyps(2) by auto
  ultimately show ?case using f Cons.hyps(2) [symmetric]
    by (simp add: read_lines.simps [of s] fgets_def)
qed

lemma total_lines_fit: "lines_fit s \<Longrightarrow> total_lines s = length (spec_lines s)"
  by (simp add: total_lines_eq read_lines_fit)

lemma read_lines_10000:
  assumes "c \<noteq> NL" and "c \<noteq> NUL"
  shows "read_lines (replicate 10000 c) = [replicate 9999 c, [c]]"
proof -
  have "read_lines [c] = [[c]]"
    using assms by (intro read_lines_short) (simp_all add: MAX_LINE_LENGTH_def)
  with read_lines_long [OF assms, of "[c]"] show ?thesis
    by (simp only: replicate_10000)
qed

lemma spec_lines_10000:
  "c \<noteq> NL \<Longrightarrow> spec_lines (replicate 10000 c) = [replicate 10000 c]"
  by (intro spec_lines_replicate) simp_all

lemma last_concat:
  "ls \<noteq> [] \<Longrightarrow> last ls \<noteq> [] \<Longrightarrow> last (concat ls) = last (last ls)"
proof -
  assume ne: "ls \<noteq> []" and l: "last ls \<noteq> []"
  from ne have "concat ls = concat (butlast ls) @ last ls"
    by (metis append_butlast_last_id concat.simps(1,2) concat_append append_Nil2)
  with l show ?thesis by simp
qed

lemma final_line_no_newline:
  assumes "s \<noteq> []" and "last s \<noteq> NL"
  shows "NL \<notin> set (last (spec_lines s))"
proof -
  let ?l = "last (spec_lines s)"
  from assms(1) have ne: "spec_lines s \<noteq> []" by (simp add: spec_lines_Nil_iff)
  then have mem: "?l \<in> set (spec_lines s)" by simp
  with spec_lines_nonempty [of s] have l: "?l \<noteq> []" by auto
  from last_concat [OF ne l] have "last ?l = last s" by (simp add: concat_spec_lines)
  with assms(2) have "last ?l \<noteq> NL" by simp
  moreover from mem have "NL \<notin> set (butlast ?l)" by (rule spec_lines_inner)
  moreover from l have "set ?l = insert (last ?l) (set (butlast ?l))"
    by (metis append_butlast_last_id list.simps(15) rotate1.simps(2) set_rotate1)
  ultimately show ?thesis by simp
qed

lemma strdup_lines_text:
  "NUL \<notin> set (concat ls) \<Longrightarrow> map strdup ls = ls"
  by (induction ls) (simp_all add: strdup_text)

lemma atoi_fits:
  "- (2 ^ 31) \<le> strtol10 s \<Longrightarrow> strtol10 s < 2 ^ 31 \<Longrightarrow> atoi s = strtol10 s"
  by (simp add: atoi_def strtol_def int_of_long_def)

lemma replace_line_outcome_fit:
  assumes "\<forall>s. fopen_r fs path = Some s \<longrightarrow> lines_fit s"
  shows "\<exists>out. replace_line fs path n c = Some out \<and>
    (status out = 0 \<or> status out = 1) \<and>
    (status out = 1 \<longleftrightarrow>
       fopen_r fs path = None \<or>
       (\<exists>s. fopen_r fs path = Some s \<and> (n < 1 \<or> n > int (length (spec_lines s)))) \<or>
       fopen_w fs path = None) \<and>
    (status out = 1 \<longrightarrow> files out = fs \<and> stderr out \<noteq> []) \<and>
    (status out = 0 \<longrightarrow> stderr out = [] \<and>
       (\<exists>f. fs path = Some f \<and>
          files out = fs(path \<mapsto> f\<lparr>content :=
            concat ((map strdup (spec_lines (content f)))[nat (n - 1) := cstr c @ [NL]])\<rparr>)))"
proof (cases "fopen_r fs path")
  case None
  with replace_line_unreadable [OF None, of n c] show ?thesis by simp
next
  case (Some s)
  then obtain f where f: "fs path = Some f" "readable f" "s = content f"
    by (auto simp: fopen_r_Some)
  from assms Some f have "lines_fit (content f)" by simp
  then have rl: "read_lines (content f) = map strdup (spec_lines (content f))"
    by (rule read_lines_fit)
  show ?thesis
  proof (cases "0 < n \<and> n \<le> int (length (read_lines (content f)))")
    case False
    with replace_line_range [of fs path f n c] f Some show ?thesis
      by (auto simp: rl)
  next
    case range: True
    show ?thesis
    proof (cases "writable f")
      case False
      with f have "fopen_w fs path = None" by (auto simp: fopen_w_None)
      with replace_line_unwritable [of fs path f n c] f False range show ?thesis
        by simp
    next
      case True
      with f have "fopen_w fs path \<noteq> None" by (auto simp: fopen_w_None)
      with replace_line_written [of fs path f n c] f True range Some show ?thesis
        by (auto simp: rl)
    qed
  qed
qed

section \<open>The properties of the specification\<close>

text \<open>
  C1. For a file that this process may read and write, whose content is well formed
  with lines \<open>l\<^sub>1 \<dots> l\<^sub>N\<close>, and an index \<open>1 \<le> k \<le> N\<close>, \<^verbatim>\<open>replace_line\<close> returns 0 and the file
  then holds \<open>l\<^sub>1 \<dots> l\<^sub>k\<^sub>-\<^sub>1\<close>, the new content followed by one newline, and \<open>l\<^sub>k\<^sub>+\<^sub>1 \<dots> l\<^sub>N\<close>, in
  this order and byte for byte. When the new content has no newline of its own, these are
  exactly the lines of the resulting file.
\<close>

theorem replace_line_replaces:
  assumes "fs path = Some f" and "readable f" and "writable f"
    and "well_formed (content f)" and "NUL \<notin> set new_content"
    and "1 \<le> k" and "k \<le> int (length (spec_lines (content f)))"
  shows "replace_line fs path k new_content =
      Some \<lparr>status = 0, stderr = [],
        files = fs(path \<mapsto> f\<lparr>content :=
          concat (take (nat k - 1) (spec_lines (content f))) @ new_content @ [NL] @
          concat (drop (nat k) (spec_lines (content f)))\<rparr>)\<rparr> \<and>
    (NL \<notin> set new_content \<longrightarrow>
      spec_lines (concat (take (nat k - 1) (spec_lines (content f))) @ new_content @ [NL] @
          concat (drop (nat k) (spec_lines (content f)))) =
        (spec_lines (content f))[nat k - 1 := new_content @ [NL]])"
proof -
  let ?ls = "spec_lines (content f)"
  let ?new = "?ls[nat k - 1 := new_content @ [NL]]"
  let ?f' = "f\<lparr>content := concat ?new\<rparr>"
  have rl: "read_lines (content f) = ?ls"
    using assms(4) by (rule read_lines_well_formed)
  have i: "nat k - 1 < length ?ls" and k1: "nat (k - 1) = nat k - 1" and sk: "Suc (nat k - 1) = nat k"
    using assms(6,7) by auto
  have "replace_line fs path k new_content =
    Some \<lparr>status = 0, stderr = [], files = fs(path \<mapsto> ?f')\<rparr>"
    using replace_line_written [of fs path f k new_content] assms rl k1
    by (simp add: cstr_text)
  moreover have cc: "concat ?new = concat (take (nat k - 1) ?ls) @ new_content @ [NL] @
      concat (drop (nat k) ?ls)"
    using concat_update [OF i, of "new_content @ [NL]"] sk by simp
  moreover have "spec_lines (concat ?new) = ?new" if nl: "NL \<notin> set new_content"
  proof -
    have "spec_lines (concat ?new) = ?new"
    proof (rule spec_lines_concat)
      fix l assume "l \<in> set ?new"
      then have "l = new_content @ [NL] \<or> l \<in> set ?ls"
        using set_update_subset_insert [of ?ls] by auto
      then show "l \<noteq> [] \<and> NL \<notin> set (butlast l)"
        using nl spec_lines_nonempty [of "content f"] spec_lines_inner [of l "content f"]
        by auto
    next
      fix l assume "l \<in> set (butlast ?new)"
      then have "l = new_content @ [NL] \<or> l \<in> set (butlast ?ls)"
        using set_update_subset_insert [of "butlast ?ls"]
        by (auto simp: butlast_list_update split: if_splits)
      then show "last l = NL"
        using spec_lines_terminated [of l "content f"] by auto
    qed
    then show ?thesis .
  qed
  ultimately show ?thesis by simp
qed

theorem replace_line_replaces_witness:
  "replace_line
     [''f.txt'' \<mapsto> \<lparr>content = ''a\<newline>b\<newline>c\<newline>'', readable = True, writable = True\<rparr>]
     ''f.txt'' 2 ''X'' =
   Some \<lparr>status = 0, stderr = [],
     files = [''f.txt'' \<mapsto> \<lparr>content = ''a\<newline>X\<newline>c\<newline>'', readable = True, writable = True\<rparr>]\<rparr> \<and>
   spec_lines ''a\<newline>X\<newline>c\<newline>'' = [''a\<newline>'', ''X\<newline>'', ''c\<newline>'']"
proof -
  have wf: "well_formed ''a\<newline>b\<newline>c\<newline>''" by code_simp
  have sl: "spec_lines ''a\<newline>b\<newline>c\<newline>'' = [''a\<newline>'', ''b\<newline>'', ''c\<newline>'']"
    by (simp add: NL_def)
  have nn: "NUL \<notin> set ''X''" "NL \<notin> set ''X''" by (simp_all add: NUL_def NL_def)
  show ?thesis
    using replace_line_replaces
      [of "[''f.txt'' \<mapsto> \<lparr>content = ''a\<newline>b\<newline>c\<newline>'', readable = True, writable = True\<rparr>]"
        "''f.txt''" "\<lparr>content = ''a\<newline>b\<newline>c\<newline>'', readable = True, writable = True\<rparr>"
        "''X''" 2] wf nn
    by (simp add: sl NL_def)
qed

text \<open>
  C2, as stated, fails: a file of 10000 bytes without a newline has one line, so the
  index 2 is out of range, yet the read phase stores two strings and \<^verbatim>\<open>replace_line\<close>
  returns 0 and rewrites the file.
\<close>

theorem replace_line_long_line_in_range:
  "length (spec_lines (replicate 10000 (CHR ''a''))) = 1 \<and>
   replace_line
     [''f.txt'' \<mapsto> \<lparr>content = replicate 10000 (CHR ''a''), readable = True, writable = True\<rparr>]
     ''f.txt'' 2 ''X'' =
   Some \<lparr>status = 0, stderr = [],
     files = [''f.txt'' \<mapsto>
       \<lparr>content = replicate 9999 (CHR ''a'') @ ''X\<newline>'', readable = True, writable = True\<rparr>]\<rparr>"
proof -
  let ?s = "replicate 10000 (CHR ''a'')"
  let ?f = "\<lparr>content = ?s, readable = True, writable = True\<rparr>"
  have a: "CHR ''a'' \<noteq> NL" "CHR ''a'' \<noteq> NUL" by (simp_all add: NL_def NUL_def)
  have rl: "read_lines ?s = [replicate 9999 (CHR ''a''), ''a'']"
    using a by (rule read_lines_10000)
  have c: "cstr ''X'' = ''X''" by (intro cstr_text) (simp add: NUL_def)
  from replace_line_written [of "[''f.txt'' \<mapsto> ?f]" "''f.txt''" ?f 2 "''X''"]
  have "replace_line [''f.txt'' \<mapsto> ?f] ''f.txt'' 2 ''X'' =
    Some \<lparr>status = 0, stderr = [],
      files = [''f.txt'' \<mapsto>
        \<lparr>content = replicate 9999 (CHR ''a'') @ ''X\<newline>'', readable = True, writable = True\<rparr>]\<rparr>"
    by (simp add: rl c NL_def)
  with spec_lines_10000 [OF a(1)] show ?thesis by simp
qed

text \<open>
  C2 (amended). For a readable file whose lines, each with its newline, are shorter than
  \<^verbatim>\<open>MAX_LINE_LENGTH\<close>, with \<open>N\<close> lines, and an index \<open>k\<close> with \<open>k < 1\<close> or \<open>k > N\<close>,
  \<^verbatim>\<open>replace_line\<close> returns 1 with the out-of-range diagnostic for \<open>k\<close> and \<open>N\<close>, and the
  file system is unchanged: the file is never opened for writing.
\<close>

theorem replace_line_out_of_range:
  assumes "fs path = Some f" and "readable f" and "lines_fit (content f)"
    and "k < 1 \<or> k > int (length (spec_lines (content f)))"
  shows "replace_line fs path k c =
    Some \<lparr>status = 1,
      stderr = [OutOfRange k (int (length (spec_lines (content f))))], files = fs\<rparr>"
proof -
  from assms(3) have n: "length (read_lines (content f)) = length (spec_lines (content f))"
    by (simp add: read_lines_fit)
  with assms(4) have "\<not> (0 < k \<and> k \<le> int (length (read_lines (content f))))"
    by auto
  with replace_line_range [of fs path f k c] assms(1,2) n show ?thesis
    by simp
qed

theorem replace_line_out_of_range_witness:
  "replace_line
     [''f.txt'' \<mapsto> \<lparr>content = ''a\<newline>b\<newline>c\<newline>'', readable = True, writable = True\<rparr>]
     ''f.txt'' 5 ''X'' =
   Some \<lparr>status = 1, stderr = [OutOfRange 5 3],
     files = [''f.txt'' \<mapsto> \<lparr>content = ''a\<newline>b\<newline>c\<newline>'', readable = True, writable = True\<rparr>]\<rparr> \<and>
   replace_line
     [''f.txt'' \<mapsto> \<lparr>content = ''a\<newline>b\<newline>c\<newline>'', readable = True, writable = True\<rparr>]
     ''f.txt'' 0 ''X'' =
   Some \<lparr>status = 1, stderr = [OutOfRange 0 3],
     files = [''f.txt'' \<mapsto> \<lparr>content = ''a\<newline>b\<newline>c\<newline>'', readable = True, writable = True\<rparr>]\<rparr>"
proof -
  let ?f = "\<lparr>content = ''a\<newline>b\<newline>c\<newline>'', readable = True, writable = True\<rparr>"
  have fit: "lines_fit ''a\<newline>b\<newline>c\<newline>''" by code_simp
  have sl: "spec_lines ''a\<newline>b\<newline>c\<newline>'' = [''a\<newline>'', ''b\<newline>'', ''c\<newline>'']"
    by (simp add: NL_def)
  have n: "int (length (spec_lines ''a\<newline>b\<newline>c\<newline>'')) = 3"
    unfolding sl by simp
  from replace_line_out_of_range [of "[''f.txt'' \<mapsto> ?f]" "''f.txt''" ?f 5 "''X''"] fit
    replace_line_out_of_range [of "[''f.txt'' \<mapsto> ?f]" "''f.txt''" ?f 0 "''X''"]
  show ?thesis by (simp add: n del: spec_lines.simps)
qed

text \<open>
  C3, as stated, fails: a run of 10000 bytes without a newline is one line, but
  \<^verbatim>\<open>fgets\<close> fills its buffer after 9999 bytes and the read phase stores two strings.
\<close>

theorem read_phase_splits_long_line:
  "spec_lines (replicate 10000 (CHR ''a'')) = [replicate 10000 (CHR ''a'')] \<and>
   read_lines (replicate 10000 (CHR ''a'')) = [replicate 9999 (CHR ''a''), ''a''] \<and>
   total_lines (replicate 10000 (CHR ''a'')) = 2 \<and>
   take 2 (lines (read_phase (replicate 10000 (CHR ''a'')))) =
     [Some (replicate 9999 (CHR ''a'')), Some ''a'']"
proof -
  have a: "CHR ''a'' \<noteq> NL" "CHR ''a'' \<noteq> NUL" by (simp_all add: NL_def NUL_def)
  have split: "replicate 10000 (CHR ''a'') = replicate 9999 (CHR ''a'') @ ''a''"
    by (rule replicate_10000)
  have "read_lines ''a'' = [''a'']"
    using a by (intro read_lines_short) (simp_all add: MAX_LINE_LENGTH_def)
  with read_lines_long [OF a, of "''a''"]
  have rl: "read_lines (replicate 10000 (CHR ''a'')) = [replicate 9999 (CHR ''a''), ''a'']"
    by (simp only: split)
  have "spec_lines (replicate 10000 (CHR ''a'')) = [replicate 10000 (CHR ''a'')]"
    using a by (intro spec_lines_replicate) simp_all
  moreover from read_phase_take [of "replicate 10000 (CHR ''a'')"] rl
  have "take 2 (lines (read_phase (replicate 10000 (CHR ''a'')))) =
     [Some (replicate 9999 (CHR ''a'')), Some ''a'']"
    by (simp add: numeral_2_eq_2)
  ultimately show ?thesis using rl by (simp add: total_lines_eq)
qed

text \<open>
  C3 (amended). For a file without NUL bytes whose lines, each with its newline, are
  shorter than \<^verbatim>\<open>MAX_LINE_LENGTH\<close>, the read phase produces, and stores in its array,
  exactly the lines of the file: their concatenation is the content, no line is empty or
  contains a newline before its last byte, every line but the last ends in a newline, and
  \<^verbatim>\<open>num_lines\<close> is their number.
\<close>

theorem read_phase_splits_at_newlines:
  assumes "well_formed s"
  shows "read_lines s = spec_lines s \<and>
    total_lines s = length (spec_lines s) \<and>
    take (total_lines s) (lines (read_phase s)) = map Some (spec_lines s) \<and>
    concat (read_lines s) = s \<and>
    (\<forall>l \<in> set (read_lines s). l \<noteq> [] \<and> NL \<notin> set (butlast l)) \<and>
    (\<forall>l \<in> set (butlast (read_lines s)). last l = NL)"
proof -
  from assms have rl: "read_lines s = spec_lines s" by (rule read_lines_well_formed)
  moreover have "total_lines s = length (spec_lines s)"
    by (simp add: total_lines_eq rl)
  moreover have "take (total_lines s) (lines (read_phase s)) = map Some (spec_lines s)"
    using read_phase_take [of s] by (simp add: total_lines_eq rl)
  moreover have "concat (spec_lines s) = s" by (rule concat_spec_lines)
  moreover have "\<forall>l \<in> set (spec_lines s). l \<noteq> [] \<and> NL \<notin> set (butlast l)"
    using spec_lines_nonempty [of s] spec_lines_inner [of _ s] by auto
  moreover have "\<forall>l \<in> set (butlast (spec_lines s)). last l = NL"
    using spec_lines_terminated [of _ s] by auto
  ultimately show ?thesis by simp
qed

theorem read_phase_splits_at_newlines_witness:
  "read_lines ''a\<newline>b\<newline>c'' = [''a\<newline>'', ''b\<newline>'', ''c''] \<and> total_lines ''a\<newline>b\<newline>c'' = 3"
proof -
  have wf: "well_formed ''a\<newline>b\<newline>c''" by code_simp
  have sl: "spec_lines ''a\<newline>b\<newline>c'' = [''a\<newline>'', ''b\<newline>'', ''c'']"
    by (simp add: NL_def)
  from read_phase_splits_at_newlines [OF wf]
  have "read_lines ''a\<newline>b\<newline>c'' = spec_lines ''a\<newline>b\<newline>c''"
    and "total_lines ''a\<newline>b\<newline>c'' = length (spec_lines ''a\<newline>b\<newline>c'')"
    by blast+
  then show ?thesis unfolding sl by simp
qed

text \<open>
  C4, as stated, fails when the new content has a newline of its own: the first call
  writes two lines in place of line 2, and the second call replaces only the first of
  them, so the file grows again.
\<close>

theorem replace_line_twice_embedded_newline:
  "replace_line
     [''f.txt'' \<mapsto> \<lparr>content = ''a\<newline>b\<newline>c\<newline>'', readable = True, writable = True\<rparr>]
     ''f.txt'' 2 ''X\<newline>Y'' =
   Some \<lparr>status = 0, stderr = [],
     files = [''f.txt'' \<mapsto> \<lparr>content = ''a\<newline>X\<newline>Y\<newline>c\<newline>'', readable = True, writable = True\<rparr>]\<rparr> \<and>
   replace_line
     [''f.txt'' \<mapsto> \<lparr>content = ''a\<newline>X\<newline>Y\<newline>c\<newline>'', readable = True, writable = True\<rparr>]
     ''f.txt'' 2 ''X\<newline>Y'' =
   Some \<lparr>status = 0, stderr = [],
     files = [''f.txt'' \<mapsto> \<lparr>content = ''a\<newline>X\<newline>Y\<newline>Y\<newline>c\<newline>'', readable = True, writable = True\<rparr>]\<rparr> \<and>
   ''a\<newline>X\<newline>Y\<newline>Y\<newline>c\<newline>'' \<noteq> ''a\<newline>X\<newline>Y\<newline>c\<newline>''"
proof -
  have wf: "well_formed ''a\<newline>b\<newline>c\<newline>''" "well_formed ''a\<newline>X\<newline>Y\<newline>c\<newline>''" by code_simp+
  have c: "NUL \<notin> set ''X\<newline>Y''" by (simp add: NUL_def)
  from replace_line_text [OF wf(1) c, of 2 "''f.txt''"] replace_line_text [OF wf(2) c, of 2 "''f.txt''"]
  show ?thesis by (simp add: NL_def)
qed

text \<open>
  C4 (amended). When the file, if the path names one, has no NUL byte, and the new content
  has no NUL byte, no newline and fewer than \<open>MAX_LINE_LENGTH - 1\<close> bytes, a second call of
  \<^verbatim>\<open>replace_line\<close> with the same arguments returns what the first call returned and leaves
  the file system as the first call left it, for every index and whether the first call
  succeeded or failed.
\<close>

theorem replace_line_idempotent:
  assumes "\<forall>f. fs path = Some f \<longrightarrow> NUL \<notin> set (content f)"
    and "NL \<notin> set c" and "NUL \<notin> set c" and "length c < MAX_LINE_LENGTH - 1"
  shows "\<exists>out. replace_line fs path k c = Some out \<and>
    replace_line (files out) path k c = Some out"
proof (cases "fs path")
  case None
  then have "fopen_r fs path = None" by (simp add: fopen_r_def)
  then show ?thesis by (simp add: replace_line_unreadable)
next
  case (Some f)
  show ?thesis
  proof (cases "readable f")
    case False
    with Some have "fopen_r fs path = None" by (simp add: fopen_r_def)
    then show ?thesis by (simp add: replace_line_unreadable)
  next
    case True
    show ?thesis
    proof (cases "0 < k \<and> k \<le> int (length (read_lines (content f)))")
      case False
      with replace_line_range [of fs path f k c] Some True show ?thesis by simp
    next
      case range: True
      show ?thesis
      proof (cases "writable f")
        case False
        with replace_line_unwritable [of fs path f k c] Some True range show ?thesis by simp
      next
        case w: True
        from assms(1) Some have "NUL \<notin> set (content f)" by simp
        with replace_line_again [of fs path f c k] Some True w assms(2-4) range
          replace_line_written [of fs path f k c] 
        show ?thesis by (simp add: cstr_text)
      qed
    qed
  qed
qed

theorem replace_line_idempotent_witness:
  "replace_line
     [''f.txt'' \<mapsto> \<lparr>content = ''a\<newline>b\<newline>c\<newline>'', readable = True, writable = True\<rparr>]
     ''f.txt'' 2 ''X'' =
   Some \<lparr>status = 0, stderr = [],
     files = [''f.txt'' \<mapsto> \<lparr>content = ''a\<newline>X\<newline>c\<newline>'', readable = True, writable = True\<rparr>]\<rparr> \<and>
   replace_line
     [''f.txt'' \<mapsto> \<lparr>content = ''a\<newline>X\<newline>c\<newline>'', readable = True, writable = True\<rparr>]
     ''f.txt'' 2 ''X'' =
   Some \<lparr>status = 0, stderr = [],
     files = [''f.txt'' \<mapsto> \<lparr>content = ''a\<newline>X\<newline>c\<newline>'', readable = True, writable = True\<rparr>]\<rparr>"
proof -
  let ?fs = "[''f.txt'' \<mapsto> \<lparr>content = ''a\<newline>b\<newline>c\<newline>'', readable = True, writable = True\<rparr>]"
  let ?out = "\<lparr>status = 0, stderr = [],
     files = [''f.txt'' \<mapsto> \<lparr>content = ''a\<newline>X\<newline>c\<newline>'', readable = True, writable = True\<rparr>]\<rparr>"
  have wf: "well_formed ''a\<newline>b\<newline>c\<newline>''" by code_simp
  have c: "NUL \<notin> set ''X''" "NL \<notin> set ''X''" "length ''X'' < MAX_LINE_LENGTH - 1"
    by (simp_all add: NUL_def NL_def MAX_LINE_LENGTH_def)
  from replace_line_text [OF wf c(1), of 2 "''f.txt''"]
  have first: "replace_line ?fs ''f.txt'' 2 ''X'' = Some ?out" by (simp add: NL_def)
  have "\<forall>f. ?fs ''f.txt'' = Some f \<longrightarrow> NUL \<notin> set (content f)"
    by (simp add: NUL_def)
  with replace_line_idempotent [of ?fs "''f.txt''" "''X''" 2] c first
  have "replace_line (files ?out) ''f.txt'' 2 ''X'' = Some ?out" by auto
  with first show ?thesis by simp
qed

text \<open>
  C5, as stated, fails: a file of 10000 bytes without a newline has one line, which is its
  final line and lacks a newline; replacing line 1 replaces only the first 9999 bytes, and
  the file still does not end in a newline.
\<close>

theorem replace_long_final_line:
  "spec_lines (replicate 10000 (CHR ''a'')) = [replicate 10000 (CHR ''a'')] \<and>
   last (replicate 10000 (CHR ''a'')) \<noteq> NL \<and>
   replace_line
     [''f.txt'' \<mapsto> \<lparr>content = replicate 10000 (CHR ''a''), readable = True, writable = True\<rparr>]
     ''f.txt'' 1 ''Y'' =
   Some \<lparr>status = 0, stderr = [],
     files = [''f.txt'' \<mapsto> \<lparr>content = ''Y\<newline>a'', readable = True, writable = True\<rparr>]\<rparr> \<and>
   last ''Y\<newline>a'' \<noteq> NL"
proof -
  let ?s = "replicate 10000 (CHR ''a'')"
  let ?f = "\<lparr>content = ?s, readable = True, writable = True\<rparr>"
  have a: "CHR ''a'' \<noteq> NL" "CHR ''a'' \<noteq> NUL" by (simp_all add: NL_def NUL_def)
  have rl: "read_lines ?s = [replicate 9999 (CHR ''a''), ''a'']"
    using a by (rule read_lines_10000)
  have c: "cstr ''Y'' = ''Y''" by (intro cstr_text) (simp add: NUL_def)
  from replace_line_written [of "[''f.txt'' \<mapsto> ?f]" "''f.txt''" ?f 1 "''Y''"]
  have "replace_line [''f.txt'' \<mapsto> ?f] ''f.txt'' 1 ''Y'' =
    Some \<lparr>status = 0, stderr = [],
      files = [''f.txt'' \<mapsto> \<lparr>content = ''Y\<newline>a'', readable = True, writable = True\<rparr>]\<rparr>"
    by (simp add: rl c NL_def)
  moreover have "last ?s \<noteq> NL" using a(1) by simp
  ultimately show ?thesis using spec_lines_10000 [OF a(1)] a(1) by simp
qed

text \<open>
  C5 (amended). For a file that this process may read and write, whose lines, each with
  its newline, are shorter than \<^verbatim>\<open>MAX_LINE_LENGTH\<close>, and whose content does not end in a
  newline, the final line has no newline, and replacing it (the index is the number of
  lines) gives a file that ends in a newline: the earlier lines as the read phase stored
  them (unchanged when the file has no NUL byte), then the new content and one newline.
  For the content \<^verbatim>\<open>"a\nb"\<close>, replacing line 2 by \<^verbatim>\<open>"Y"\<close> gives exactly \<^verbatim>\<open>"a\nY\n"\<close>.
\<close>

theorem replace_last_line_appends_newline:
  assumes "fs path = Some f" and "readable f" and "writable f"
    and "lines_fit (content f)"
    and "content f \<noteq> []" and "last (content f) \<noteq> NL"
    and "NUL \<notin> set new_content"
  shows "NL \<notin> set (last (spec_lines (content f))) \<and>
    content f = concat (butlast (spec_lines (content f))) @ last (spec_lines (content f)) \<and>
    replace_line fs path (int (length (spec_lines (content f)))) new_content =
      Some \<lparr>status = 0, stderr = [],
        files = fs(path \<mapsto> f\<lparr>content :=
          concat (map strdup (butlast (spec_lines (content f)))) @ new_content @ [NL]\<rparr>)\<rparr> \<and>
    (NUL \<notin> set (content f) \<longrightarrow>
       map strdup (butlast (spec_lines (content f))) = butlast (spec_lines (content f))) \<and>
    replace_line
      [''f.txt'' \<mapsto> \<lparr>content = ''a\<newline>b'', readable = True, writable = True\<rparr>]
      ''f.txt'' 2 ''Y'' =
    Some \<lparr>status = 0, stderr = [],
      files = [''f.txt'' \<mapsto> \<lparr>content = ''a\<newline>Y\<newline>'', readable = True, writable = True\<rparr>]\<rparr>"
proof -
  let ?sl = "spec_lines (content f)"
  let ?ls = "read_lines (content f)"
  let ?k = "int (length ?sl)"
  have rl: "?ls = map strdup ?sl" using assms(4) by (rule read_lines_fit)
  have ne: "?sl \<noteq> []" using assms(5) by (simp add: spec_lines_Nil_iff)
  have final: "NL \<notin> set (last ?sl)" using assms(5,6) by (rule final_line_no_newline)
  have whole: "content f = concat (butlast ?sl) @ last ?sl"
  proof -
    from ne have "concat ?sl = concat (butlast ?sl) @ last ?sl"
      by (metis append_butlast_last_id concat.simps(1,2) concat_append append_Nil2)
    then show ?thesis by (simp add: concat_spec_lines)
  qed
  have k: "0 < ?k" "?k \<le> int (length ?ls)" "nat (?k - 1) = length ?ls - 1"
    using ne by (simp_all add: rl)
  have "?ls[length ?ls - 1 := new_content @ [NL]] = butlast ?ls @ [new_content @ [NL]]"
    using ne by (intro update_last) (simp add: rl)
  with replace_line_written [of fs path f ?k new_content] assms(1-3) k assms(7)
  have general: "replace_line fs path ?k new_content =
      Some \<lparr>status = 0, stderr = [],
        files = fs(path \<mapsto> f\<lparr>content :=
          concat (map strdup (butlast ?sl)) @ new_content @ [NL]\<rparr>)\<rparr>"
    by (simp add: cstr_text rl map_butlast)
  have plain: "map strdup (butlast ?sl) = butlast ?sl" if "NUL \<notin> set (content f)"
  proof -
    from that whole have "NUL \<notin> set (concat (butlast ?sl))" by (metis Un_iff set_append)
    then show ?thesis by (rule strdup_lines_text)
  qed
  let ?g = "\<lparr>content = ''a\<newline>b'', readable = True, writable = True\<rparr>"
  have rl2: "read_lines ''a\<newline>b'' = [''a\<newline>'', ''b'']"
  proof -
    have "well_formed ''a\<newline>b''" by code_simp
    then have "read_lines ''a\<newline>b'' = spec_lines ''a\<newline>b''"
      by (rule read_lines_well_formed)
    then show ?thesis by (simp add: NL_def)
  qed
  have "cstr ''Y'' = ''Y''" by (intro cstr_text) (simp add: NUL_def)
  with replace_line_written [of "[''f.txt'' \<mapsto> ?g]" "''f.txt''" ?g 2 "''Y''"] rl2
  have example: "replace_line [''f.txt'' \<mapsto> ?g] ''f.txt'' 2 ''Y'' =
    Some \<lparr>status = 0, stderr = [],
      files = [''f.txt'' \<mapsto> \<lparr>content = ''a\<newline>Y\<newline>'', readable = True, writable = True\<rparr>]\<rparr>"
    by (simp add: NL_def)
  from final whole general plain example show ?thesis by blast
qed

theorem replace_last_line_appends_newline_witness:
  "NL \<notin> set ''z'' \<and>
   replace_line
     [''g.txt'' \<mapsto> \<lparr>content = ''x\<newline>y\<newline>z'', readable = True, writable = True\<rparr>]
     ''g.txt'' 3 ''W'' =
   Some \<lparr>status = 0, stderr = [],
     files = [''g.txt'' \<mapsto> \<lparr>content = ''x\<newline>y\<newline>W\<newline>'', readable = True, writable = True\<rparr>]\<rparr>"
proof -
  let ?s = "''x\<newline>y\<newline>z''"
  let ?g = "\<lparr>content = ?s, readable = True, writable = True\<rparr>"
  have sl: "spec_lines ?s = [''x\<newline>'', ''y\<newline>'', ''z'']" by (simp add: NL_def)
  have fit: "lines_fit ?s" by code_simp
  have nn: "NUL \<notin> set ''W''" "last ?s \<noteq> NL" "NUL \<notin> set ?s"
    by (simp_all add: NUL_def NL_def)
  have sd: "strdup ''x\<newline>'' = ''x\<newline>''" "strdup ''y\<newline>'' = ''y\<newline>''" by code_simp+
  from replace_last_line_appends_newline
    [of "[''g.txt'' \<mapsto> ?g]" "''g.txt''" ?g "''W''"] fit nn
  have "NL \<notin> set (last (spec_lines ?s))"
    and "replace_line [''g.txt'' \<mapsto> ?g] ''g.txt'' (int (length (spec_lines ?s))) ''W'' =
      Some \<lparr>status = 0, stderr = [],
        files = [''g.txt'' \<mapsto> ?g, ''g.txt'' \<mapsto> ?g\<lparr>content :=
          concat (map strdup (butlast (spec_lines ?s))) @ ''W'' @ [NL]\<rparr>]\<rparr>"
    by (simp_all del: spec_lines.simps)
  then show ?thesis unfolding sl by (simp add: sd NL_def)
qed

text \<open>
  C6, as stated, fails: \<^verbatim>\<open>"2x"\<close> is not a number, yet \<^verbatim>\<open>atoi\<close> converts its leading digit,
  and on a file of two lines the call succeeds and replaces line 2.
\<close>

theorem main_accepts_numeric_prefix:
  "\<not> numeric ''2x'' \<and> atoi ''2x'' = 2 \<and>
   main [''f.txt'' \<mapsto> \<lparr>content = ''a\<newline>b\<newline>'', readable = True, writable = True\<rparr>]
     [''line_replacer'', ''f.txt'', ''2x'', ''Z''] =
   Some \<lparr>status = 0, stderr = [],
     files = [''f.txt'' \<mapsto> \<lparr>content = ''a\<newline>Z\<newline>'', readable = True, writable = True\<rparr>]\<rparr>"
proof -
  have n: "\<not> numeric ''2x''" by code_simp
  have a: "atoi ''2x'' = 2" by code_simp
  have wf: "well_formed ''a\<newline>b\<newline>''" by code_simp
  have c: "NUL \<notin> set ''Z''" by (simp add: NUL_def)
  from replace_line_text [OF wf c, of 2 "''f.txt''"] a
    main_replace_line [of _ "''line_replacer''" "''f.txt''" "''2x''" "''Z''"]
  have "main [''f.txt'' \<mapsto> \<lparr>content = ''a\<newline>b\<newline>'', readable = True, writable = True\<rparr>]
     [''line_replacer'', ''f.txt'', ''2x'', ''Z''] =
   Some \<lparr>status = 0, stderr = [],
     files = [''f.txt'' \<mapsto> \<lparr>content = ''a\<newline>Z\<newline>'', readable = True, writable = True\<rparr>]\<rparr>"
    by (simp add: NL_def)
  with n a show ?thesis by simp
qed

text \<open>
  C6 (amended). For every \<^verbatim>\<open><line_number>\<close> argument that does not begin with a number
  (after leading white space and an optional sign no digit follows), \<^verbatim>\<open>atoi\<close> yields 0, and
  the program does exactly what \<^verbatim>\<open>replace_line\<close> does for the index 0: on a readable file
  it returns 1 with the out-of-range diagnostic for 0 and leaves the file system
  unchanged. There is no other diagnostic for such an argument.
\<close>

theorem main_non_number_is_range_error:
  assumes "\<not> begins_with_number arg"
  shows "atoi arg = 0 \<and>
    main fs [prog, path, arg, c] = replace_line fs path 0 c \<and>
    (\<forall>f. fs path = Some f \<and> readable f \<longrightarrow>
      main fs [prog, path, arg, c] =
        Some \<lparr>status = 1, stderr = [OutOfRange 0 (int (total_lines (content f)))], files = fs\<rparr>)"
proof -
  from assms have a: "atoi arg = 0" by (rule atoi_no_number)
  then have m: "main fs [prog, path, arg, c] = replace_line fs path 0 c"
    by (simp add: main_replace_line)
  have "replace_line fs path 0 c =
      Some \<lparr>status = 1, stderr = [OutOfRange 0 (int (total_lines (content f)))], files = fs\<rparr>"
    if "fs path = Some f" "readable f" for f
    using replace_line_range [of fs path f 0 c] that by (simp add: total_lines_eq)
  with a m show ?thesis by simp
qed

theorem main_non_number_is_range_error_witness:
  "atoi ''abc'' = 0 \<and>
   main [''f.txt'' \<mapsto> \<lparr>content = ''a\<newline>b\<newline>'', readable = True, writable = True\<rparr>]
     [''line_replacer'', ''f.txt'', ''abc'', ''Z''] =
   Some \<lparr>status = 1, stderr = [OutOfRange 0 2],
     files = [''f.txt'' \<mapsto> \<lparr>content = ''a\<newline>b\<newline>'', readable = True, writable = True\<rparr>]\<rparr>"
proof -
  have b: "\<not> begins_with_number ''abc''" by code_simp
  have n: "total_lines ''a\<newline>b\<newline>'' = 2" by code_simp
  from main_non_number_is_range_error [OF b,
    of "[''f.txt'' \<mapsto> \<lparr>content = ''a\<newline>b\<newline>'', readable = True, writable = True\<rparr>]"
      "''line_replacer''" "''f.txt''" "''Z''"]
  show ?thesis by (auto simp: n)
qed

text \<open>
  C7, as stated, fails. The line number 4294967298 is out of range for a file of three
  lines, yet \<^verbatim>\<open>atoi\<close> keeps its low 32 bits, which are 2, and the program returns 0 and
  replaces line 2. And for a file of one line of 10000 bytes the line number 2 is out of
  range, yet the program returns 0.
\<close>

theorem main_exits_0_out_of_range:
  "strtol10 ''4294967298'' = 4294967298 \<and>
   length (spec_lines ''a\<newline>b\<newline>c\<newline>'') = 3 \<and>
   main [''f.txt'' \<mapsto> \<lparr>content = ''a\<newline>b\<newline>c\<newline>'', readable = True, writable = True\<rparr>]
     [''line_replacer'', ''f.txt'', ''4294967298'', ''X''] =
   Some \<lparr>status = 0, stderr = [],
     files = [''f.txt'' \<mapsto> \<lparr>content = ''a\<newline>X\<newline>c\<newline>'', readable = True, writable = True\<rparr>]\<rparr> \<and>
   length (spec_lines (replicate 10000 (CHR ''a''))) = 1 \<and>
   main [''f.txt'' \<mapsto> \<lparr>content = replicate 10000 (CHR ''a''), readable = True, writable = True\<rparr>]
     [''line_replacer'', ''f.txt'', ''2'', ''X''] =
   Some \<lparr>status = 0, stderr = [],
     files = [''f.txt'' \<mapsto>
       \<lparr>content = replicate 9999 (CHR ''a'') @ ''X\<newline>'', readable = True, writable = True\<rparr>]\<rparr>"
proof -
  let ?s = "replicate 10000 (CHR ''a'')"
  let ?f = "\<lparr>content = ?s, readable = True, writable = True\<rparr>"
  have v: "strtol10 ''4294967298'' = 4294967298" by code_simp
  have big: "atoi ''4294967298'' = 2" by code_simp
  have two: "atoi ''2'' = 2" by code_simp
  have wf: "well_formed ''a\<newline>b\<newline>c\<newline>''" by code_simp
  have n3: "length (spec_lines ''a\<newline>b\<newline>c\<newline>'') = 3" by (simp add: NL_def)
  have c: "NUL \<notin> set ''X''" by (simp add: NUL_def)
  from replace_line_text [OF wf c, of 2 "''f.txt''"] big
    main_replace_line [of _ "''line_replacer''" "''f.txt''" "''4294967298''" "''X''"]
  have first: "main [''f.txt'' \<mapsto> \<lparr>content = ''a\<newline>b\<newline>c\<newline>'', readable = True, writable = True\<rparr>]
     [''line_replacer'', ''f.txt'', ''4294967298'', ''X''] =
   Some \<lparr>status = 0, stderr = [],
     files = [''f.txt'' \<mapsto> \<lparr>content = ''a\<newline>X\<newline>c\<newline>'', readable = True, writable = True\<rparr>]\<rparr>"
    by (simp add: NL_def)
  have a: "CHR ''a'' \<noteq> NL" "CHR ''a'' \<noteq> NUL" by (simp_all add: NL_def NUL_def)
  have rl: "read_lines ?s = [replicate 9999 (CHR ''a''), ''a'']"
    using a by (rule read_lines_10000)
  have cx: "cstr ''X'' = ''X''" using c by (rule cstr_text)
  from replace_line_written [of "[''f.txt'' \<mapsto> ?f]" "''f.txt''" ?f 2 "''X''"] two
    main_replace_line [of "[''f.txt'' \<mapsto> ?f]" "''line_replacer''" "''f.txt''" "''2''" "''X''"]
  have second: "main [''f.txt'' \<mapsto> ?f] [''line_replacer'', ''f.txt'', ''2'', ''X''] =
    Some \<lparr>status = 0, stderr = [],
      files = [''f.txt'' \<mapsto>
        \<lparr>content = replicate 9999 (CHR ''a'') @ ''X\<newline>'', readable = True, writable = True\<rparr>]\<rparr>"
    by (simp add: rl cx NL_def)
  from v n3 first second spec_lines_10000 [OF a(1)] show ?thesis by simp
qed

text \<open>
  C7 (amended). The line number is the \<^verbatim>\<open>int\<close> that \<^verbatim>\<open>atoi\<close> makes of the argument (the
  argument's value when that fits an \<^verbatim>\<open>int\<close>), and the file, when it can be read, has lines
  that fit: each, with its newline, is shorter than \<^verbatim>\<open>MAX_LINE_LENGTH\<close>. Then the program
  returns 0 or 1. It returns 1 exactly when the argument count is wrong, the file cannot
  be opened for reading, the line number is outside 1 to the number of lines of the file,
  or the file cannot be opened for writing; the file system is then unchanged and a
  diagnostic is written. Otherwise it returns 0, writes no diagnostic, and the file holds
  the lines read with the chosen one replaced.
\<close>

theorem main_exit_status:
  assumes "length argv = 4 \<longrightarrow> (\<forall>s. fopen_r fs (argv ! 1) = Some s \<longrightarrow> lines_fit s)"
  shows "\<exists>out. main fs argv = Some out \<and>
    (status out = 0 \<or> status out = 1) \<and>
    (status out = 1 \<longleftrightarrow>
       length argv \<noteq> 4 \<or>
       fopen_r fs (argv ! 1) = None \<or>
       (\<exists>s. fopen_r fs (argv ! 1) = Some s \<and>
          (atoi (argv ! 2) < 1 \<or> atoi (argv ! 2) > int (length (spec_lines s)))) \<or>
       fopen_w fs (argv ! 1) = None) \<and>
    (status out = 1 \<longrightarrow> files out = fs \<and> stderr out \<noteq> []) \<and>
    (status out = 0 \<longrightarrow> stderr out = [] \<and>
       (\<exists>f. fs (argv ! 1) = Some f \<and>
          files out = fs(argv ! 1 \<mapsto> f\<lparr>content :=
            concat ((map strdup (spec_lines (content f)))
              [nat (atoi (argv ! 2) - 1) := cstr (argv ! 3) @ [NL]])\<rparr>))) \<and>
    (- (2 ^ 31) \<le> strtol10 (argv ! 2) \<and> strtol10 (argv ! 2) < 2 ^ 31 \<longrightarrow>
       atoi (argv ! 2) = strtol10 (argv ! 2))"
proof (cases "length argv = 4")
  case False
  then have "main fs argv = Some \<lparr>status = 1, stderr = [Usage], files = fs\<rparr>"
    by (simp add: main_def)
  with False show ?thesis by (simp add: atoi_fits)
next
  case True
  then have "main fs argv = replace_line fs (argv ! 1) (atoi (argv ! 2)) (argv ! 3)"
    by (simp add: main_def)
  moreover from assms True
  have "\<forall>s. fopen_r fs (argv ! 1) = Some s \<longrightarrow> lines_fit s" by simp
  note replace_line_outcome_fit [OF this, of "atoi (argv ! 2)" "argv ! 3"]
  ultimately show ?thesis using True by (simp add: atoi_fits)
qed

theorem main_exit_status_witness:
  "(\<exists>out. main [''f.txt'' \<mapsto> \<lparr>content = ''a\<newline>b\<newline>c\<newline>'', readable = True, writable = True\<rparr>]
       [''line_replacer'', ''f.txt'', ''2'', ''X''] = Some out \<and>
     status out = 0 \<and>
     files out = [''f.txt'' \<mapsto> \<lparr>content = ''a\<newline>X\<newline>c\<newline>'', readable = True, writable = True\<rparr>]) \<and>
   (\<exists>out. main [''f.txt'' \<mapsto> \<lparr>content = ''a\<newline>b\<newline>c\<newline>'', readable = True, writable = True\<rparr>]
       [''line_replacer'', ''f.txt'', ''2''] = Some out \<and> status out = 1) \<and>
   (\<exists>out. main Map.empty [''line_replacer'', ''missing.txt'', ''2'', ''X''] = Some out \<and>
     status out = 1) \<and>
   (\<exists>out. main [''f.txt'' \<mapsto> \<lparr>content = ''a\<newline>b\<newline>c\<newline>'', readable = True, writable = True\<rparr>]
       [''line_replacer'', ''f.txt'', ''5'', ''X''] = Some out \<and> status out = 1) \<and>
   (\<exists>out. main [''f.txt'' \<mapsto> \<lparr>content = ''a\<newline>b\<newline>c\<newline>'', readable = True, writable = True\<rparr>]
       [''line_replacer'', ''f.txt'', ''2147483648'', ''X''] = Some out \<and> status out = 1) \<and>
   (\<exists>out. main [''f.txt'' \<mapsto> \<lparr>content = ''a\<newline>b\<newline>c\<newline>'', readable = True, writable = False\<rparr>]
       [''line_replacer'', ''f.txt'', ''2'', ''X''] = Some out \<and> status out = 1) \<and>
   atoi ''2'' = 2"
proof -
  let ?s = "''a\<newline>b\<newline>c\<newline>''"
  let ?f = "\<lparr>content = ?s, readable = True, writable = True\<rparr>"
  let ?fs = "[''f.txt'' \<mapsto> ?f]"
  let ?ro = "[''f.txt'' \<mapsto> \<lparr>content = ?s, readable = True, writable = False\<rparr>]"
  let ?argv = "[''line_replacer'', ''f.txt'', ''2'', ''X'']"
  let ?argv5 = "[''line_replacer'', ''f.txt'', ''5'', ''X'']"
  let ?argvb = "[''line_replacer'', ''f.txt'', ''2147483648'', ''X'']"
  let ?argvm = "[''line_replacer'', ''missing.txt'', ''2'', ''X'']"
  let ?short = "[''line_replacer'', ''f.txt'', ''2'']"
  have fit: "lines_fit ?s" by code_simp
  have a2: "atoi ''2'' = 2" and a5: "atoi ''5'' = 5" and ab: "atoi ''2147483648'' = - 2147483648"
    and v2: "strtol10 ''2'' = 2"
    by code_simp+
  have r: "fopen_r ?fs ''f.txt'' = Some ?s" by (simp add: fopen_r_def)
  have rr: "fopen_r ?ro ''f.txt'' = Some ?s" by (simp add: fopen_r_def)
  have w: "fopen_w ?fs ''f.txt'' \<noteq> None" by (simp add: fopen_w_def)
  have ro: "fopen_w ?ro ''f.txt'' = None" by (simp add: fopen_w_def)
  have rm: "fopen_r Map.empty ''missing.txt'' = None" by (simp add: fopen_r_def)
  have sl: "spec_lines ?s = [''a\<newline>'', ''b\<newline>'', ''c\<newline>'']" by (simp add: NL_def)
  have n: "length (spec_lines ?s) = 3" unfolding sl by simp
  have sd: "map strdup (spec_lines ?s) = [''a\<newline>'', ''b\<newline>'', ''c\<newline>'']"
    unfolding sl by code_simp
  have c: "cstr ''X'' = ''X''" by (intro cstr_text) (simp add: NUL_def)
  have p: "?argv ! 1 = ''f.txt''" "?argv ! 2 = ''2''" "?argv ! 3 = ''X''"
    "?argv5 ! 1 = ''f.txt''" "?argv5 ! 2 = ''5''"
    "?argvb ! 1 = ''f.txt''" "?argvb ! 2 = ''2147483648''"
    "?argvm ! 1 = ''missing.txt''" by simp_all
  from main_exit_status [of ?argv ?fs]
  have ok: "\<exists>out. main ?fs ?argv = Some out \<and> status out = 0 \<and>
     files out = [''f.txt'' \<mapsto> \<lparr>content = ''a\<newline>X\<newline>c\<newline>'', readable = True, writable = True\<rparr>]"
    and val: "atoi ''2'' = 2"
    unfolding p by (auto simp: r w n sd c fit a2 v2 NL_def simp del: spec_lines.simps)
  from main_exit_status [of ?short ?fs]
  have usage: "\<exists>out. main ?fs ?short = Some out \<and> status out = 1" by auto
  from main_exit_status [of ?argvm Map.empty]
  have missing: "\<exists>out. main Map.empty ?argvm = Some out \<and> status out = 1"
    unfolding p by (auto simp: rm simp del: spec_lines.simps)
  from main_exit_status [of ?argv5 ?fs]
  have range: "\<exists>out. main ?fs ?argv5 = Some out \<and> status out = 1"
    unfolding p by (auto simp: r n fit a5 simp del: spec_lines.simps)
  from main_exit_status [of ?argvb ?fs]
  have wrapped: "\<exists>out. main ?fs ?argvb = Some out \<and> status out = 1"
    unfolding p by (auto simp: r n fit ab simp del: spec_lines.simps)
  from main_exit_status [of ?argv ?ro]
  have readonly: "\<exists>out. main ?ro ?argv = Some out \<and> status out = 1"
    unfolding p by (auto simp: rr ro fit simp del: spec_lines.simps)
  from ok usage missing range wrapped readonly val show ?thesis by blast
qed

text \<open>
  C8. When the path names no file, opening it for reading fails: \<^verbatim>\<open>replace_line\<close> returns 1
  with the cannot-open diagnostic and the file system is the one it was given, so no file
  is created at the path and nothing is written.
\<close>

theorem replace_line_missing_file:
  assumes "fs path = None"
  shows "fopen_r fs path = None \<and>
    replace_line fs path k c =
      Some \<lparr>status = 1, stderr = [CannotOpen path], files = fs\<rparr>"
proof -
  from assms have "fopen_r fs path = None" by (simp add: fopen_r_def)
  then show ?thesis by (simp add: replace_line_unreadable)
qed

theorem replace_line_missing_file_witness:
  "replace_line Map.empty ''missing.txt'' 1 ''X'' =
     Some \<lparr>status = 1, stderr = [CannotOpen ''missing.txt''], files = Map.empty\<rparr>"
  using replace_line_missing_file [of Map.empty "''missing.txt''" 1 "''X''"] by simp

text \<open>
  C9, as stated, fails: a file of one line of 10000 bytes, newline included, leaves two
  stored strings, and the first is not that line.
\<close>

theorem read_phase_stores_long_line_twice:
  "spec_lines (replicate 9999 (CHR ''a'') @ [NL]) = [replicate 9999 (CHR ''a'') @ [NL]] \<and>
   num_lines (read_phase (replicate 9999 (CHR ''a'') @ [NL])) = 2 \<and>
   take 2 (lines (read_phase (replicate 9999 (CHR ''a'') @ [NL]))) =
     [Some (replicate 9999 (CHR ''a'')), Some [NL]]"
proof -
  let ?s = "replicate 9999 (CHR ''a'') @ [NL]"
  have a: "CHR ''a'' \<noteq> NL" "CHR ''a'' \<noteq> NUL" by (simp_all add: NL_def NUL_def)
  have "read_lines [NL] = [[NL]]"
    by (intro read_lines_short) (simp_all add: MAX_LINE_LENGTH_def NL_def NUL_def)
  with read_lines_long [OF a, of "[NL]"]
  have rl: "read_lines ?s = [replicate 9999 (CHR ''a''), [NL]]" by simp
  have "spec_lines ?s = [?s]"
    using a by (intro spec_lines_single) auto
  moreover from read_phase_num [of ?s] rl
  have "num_lines (read_phase ?s) = 2" by simp
  moreover from read_phase_take [of ?s] rl
  have "take 2 (lines (read_phase ?s)) = [Some (replicate 9999 (CHR ''a'')), Some [NL]]"
    by (simp add: numeral_2_eq_2)
  ultimately show ?thesis by simp
qed

text \<open>
  C9 (amended). Storing a string keeps the strings already stored, in their order, also
  when the array is reallocated, and adds the new one after them. So after the read phase
  of any file the first \<^verbatim>\<open>num_lines\<close> slots hold the strings read, once each and in the order
  read, within the capacity; for a file without NUL bytes whose lines are shorter than
  \<^verbatim>\<open>MAX_LINE_LENGTH\<close> these are its \<open>N\<close> lines: there are \<open>N\<close> stored elements and the
  \<open>i\<close>-th is the \<open>i\<close>-th line.
\<close>

theorem read_phase_stores_lines_in_order:
  "(\<forall>a xs b. arr_inv a xs \<longrightarrow> arr_inv (store_line b a) (xs @ [strdup b])) \<and>
   num_lines (read_phase s) = length (read_lines s) \<and>
   num_lines (read_phase s) \<le> capacity (read_phase s) \<and>
   capacity (read_phase s) = length (lines (read_phase s)) \<and>
   (\<forall>i < length (read_lines s). slot (lines (read_phase s)) i = Some (read_lines s ! i)) \<and>
   (well_formed s \<longrightarrow>
      num_lines (read_phase s) = length (spec_lines s) \<and>
      (\<forall>i < length (spec_lines s). slot (lines (read_phase s)) i = Some (spec_lines s ! i)))"
proof -
  have "well_formed s \<Longrightarrow> read_lines s = spec_lines s"
    by (rule read_lines_well_formed)
  with read_phase_num [of s] read_phase_capacity [of s] read_phase_slot [of _ s] arr_inv_store
  show ?thesis by auto
qed

theorem read_phase_stores_lines_in_order_witness:
  "num_lines (read_phase ''a\<newline>b\<newline>c'') = 3 \<and>
   slot (lines (read_phase ''a\<newline>b\<newline>c'')) 0 = Some ''a\<newline>'' \<and>
   slot (lines (read_phase ''a\<newline>b\<newline>c'')) 1 = Some ''b\<newline>'' \<and>
   slot (lines (read_phase ''a\<newline>b\<newline>c'')) 2 = Some ''c'' \<and>
   num_lines (read_phase (replicate 101 NL)) = 101 \<and>
   100 < capacity (read_phase (replicate 101 NL)) \<and>
   slot (lines (read_phase (replicate 101 NL))) 0 = Some [NL] \<and>
   slot (lines (read_phase (replicate 101 NL))) 100 = Some [NL] \<and>
   arr_inv (store_line ''y'' \<lparr>lines = [Some ''x''], num_lines = 1, capacity = 1\<rparr>) [''x'', ''y'']"
proof -
  have wf: "well_formed ''a\<newline>b\<newline>c''" by code_simp
  have sl: "spec_lines ''a\<newline>b\<newline>c'' = [''a\<newline>'', ''b\<newline>'', ''c'']"
    by (simp add: NL_def)
  from read_phase_stores_lines_in_order [of "''a\<newline>b\<newline>c''"] wf
  have "num_lines (read_phase ''a\<newline>b\<newline>c'') = length (spec_lines ''a\<newline>b\<newline>c'')"
    and "\<forall>i < length (spec_lines ''a\<newline>b\<newline>c'').
      slot (lines (read_phase ''a\<newline>b\<newline>c'')) i = Some (spec_lines ''a\<newline>b\<newline>c'' ! i)"
    by blast+
  then have small: "num_lines (read_phase ''a\<newline>b\<newline>c'') = 3 \<and>
   slot (lines (read_phase ''a\<newline>b\<newline>c'')) 0 = Some ''a\<newline>'' \<and>
   slot (lines (read_phase ''a\<newline>b\<newline>c'')) 1 = Some ''b\<newline>'' \<and>
   slot (lines (read_phase ''a\<newline>b\<newline>c'')) 2 = Some ''c''"
    unfolding sl by simp
  let ?s = "replicate 101 NL"
  have wf2: "well_formed ?s" by (rule well_formed_newlines)
  have len: "length (spec_lines ?s) = 101" by (simp add: spec_lines_newlines)
  have first: "spec_lines ?s ! 0 = [NL]" and last: "spec_lines ?s ! 100 = [NL]"
    by (simp_all add: spec_lines_newlines)
  from read_phase_stores_lines_in_order [of ?s] wf2
  have "num_lines (read_phase ?s) = length (spec_lines ?s)"
    and "\<forall>i < length (spec_lines ?s). slot (lines (read_phase ?s)) i = Some (spec_lines ?s ! i)"
    and "num_lines (read_phase ?s) \<le> capacity (read_phase ?s)"
    by blast+
  with len first last have grown: "num_lines (read_phase ?s) = 101 \<and>
    slot (lines (read_phase ?s)) 0 = Some [NL] \<and> slot (lines (read_phase ?s)) 100 = Some [NL]"
    and cap: "100 < capacity (read_phase ?s)"
    by simp_all
  have "arr_inv \<lparr>lines = [Some ''x''], num_lines = 1, capacity = 1\<rparr> [''x'']"
    by (simp add: arr_inv_def)
  moreover have "strdup ''y'' = ''y''" by code_simp
  moreover from read_phase_stores_lines_in_order [of "[]"]
  have "\<forall>a xs b. arr_inv a xs \<longrightarrow> arr_inv (store_line b a) (xs @ [strdup b])"
    by (rule conjunct1)
  ultimately have "arr_inv (store_line ''y'' \<lparr>lines = [Some ''x''], num_lines = 1, capacity = 1\<rparr>)
      ([''x''] @ [''y''])"
    by metis
  with small grown cap show ?thesis by simp
qed

text \<open>
  C10. For a readable empty file the read phase counts no line, so every index, 1
  included, is out of range: \<^verbatim>\<open>replace_line\<close> returns 1 with the out-of-range diagnostic
  and leaves the file system unchanged.
\<close>

theorem replace_line_empty_file:
  assumes "fs path = Some f" and "readable f" and "content f = []"
  shows "total_lines (content f) = 0 \<and>
    replace_line fs path k c =
      Some \<lparr>status = 1, stderr = [OutOfRange k 0], files = fs\<rparr>"
proof -
  from assms(3) have n: "length (read_lines (content f)) = 0"
    by (simp add: read_lines_Nil)
  then have "\<not> (0 < k \<and> k \<le> int (length (read_lines (content f))))" by simp
  with replace_line_range [of fs path f k c] assms(1,2) n show ?thesis
    by (simp add: total_lines_eq)
qed

theorem replace_line_empty_file_witness:
  "total_lines [] = 0 \<and>
   replace_line [''e.txt'' \<mapsto> \<lparr>content = [], readable = True, writable = True\<rparr>]
     ''e.txt'' 1 ''X'' =
   Some \<lparr>status = 1, stderr = [OutOfRange 1 0],
     files = [''e.txt'' \<mapsto> \<lparr>content = [], readable = True, writable = True\<rparr>]\<rparr>"
  using replace_line_empty_file
    [of "[''e.txt'' \<mapsto> \<lparr>content = [], readable = True, writable = True\<rparr>]"
      "''e.txt''" "\<lparr>content = [], readable = True, writable = True\<rparr>" 1 "''X''"]
  by simp

end
